theory Spec2Isabelle
  imports Main
begin

section \<open>JavaScript strings and values\<close>

text \<open>
  A JavaScript string is a sequence of UTF-16 code units; \<open>length\<close>, \<open>substring\<close>,
  \<open>split\<close>, \<open>includes\<close> and a regular expression without the \<open>u\<close> flag all work on
  code units. A code unit is modelled as a natural number (below 65536 in every real
  string), a string as the list of its code units.
\<close>

type_synonym jschar = nat
type_synonym jsstring = "jschar list"

text \<open>An ASCII literal of the source, as a list of code units.\<close>

definition js :: "string \<Rightarrow> jsstring" where
  "js s = map of_char s"

abbreviation LF :: jschar where "LF \<equiv> 10"
abbreviation CR :: jschar where "CR \<equiv> 13"
abbreviation DQUOTE :: jschar where "DQUOTE \<equiv> 34"
abbreviation SQUOTE :: jschar where "SQUOTE \<equiv> 39"
abbreviation BACKSLASH :: jschar where "BACKSLASH \<equiv> 92"
abbreviation PIPE :: jschar where "PIPE \<equiv> 124"

text \<open>
  The values a JavaScript variable can hold, as far as this code reads them: it only ever
  asks for the truthiness of a value and whether its \<open>typeof\<close> is \<open>'string'\<close>. Numbers
  are kept as integers (zero is the falsy one) and arrays, objects and functions as one
  constructor; a value of any other kind is no string either and behaves like one of these.
\<close>

datatype jsval =
  JUndefined
| JNull
| JBool bool
| JNumber int
| JString jsstring
| JObject

fun truthy :: "jsval \<Rightarrow> bool" where
  "truthy JUndefined = False"
| "truthy JNull = False"
| "truthy (JBool b) = b"
| "truthy (JNumber n) = (n \<noteq> 0)"
| "truthy (JString s) = (s \<noteq> [])"
| "truthy JObject = True"

fun is_string :: "jsval \<Rightarrow> bool" where
  "is_string (JString s) = True"
| "is_string v = False"

text \<open>A thrown error object (an \<open>Error\<close> or a \<open>TypeError\<close>), with its message.\<close>

datatype js_error = Error jsstring

text \<open>
  \<open>String.prototype.trim\<close> and the class \<open>\s\<close> of a regular expression use the same set:
  WhiteSpace (TAB, VT, FF, SP, NBSP, ZWNBSP and the category Zs) and LineTerminator (LF, CR,
  LS, PS).
\<close>

definition is_ws :: "jschar \<Rightarrow> bool" where
  "is_ws c = (c = 9 \<or> c = 10 \<or> c = 11 \<or> c = 12 \<or> c = 13 \<or> c = 32 \<or> c = 160 \<or>
     c = 5760 \<or> (8192 \<le> c \<and> c \<le> 8202) \<or> c = 8232 \<or> c = 8233 \<or> c = 8239 \<or>
     c = 8287 \<or> c = 12288 \<or> c = 65279)"

definition trim :: "jsstring \<Rightarrow> jsstring" where
  "trim s = rev (dropWhile is_ws (rev (dropWhile is_ws s)))"

text \<open>\<open>s.startsWith(p)\<close> and \<open>s.includes(p)\<close>.\<close>

fun startsWith :: "jsstring \<Rightarrow> jsstring \<Rightarrow> bool" where
  "startsWith s [] = True"
| "startsWith [] (p # ps) = False"
| "startsWith (c # cs) (p # ps) = (c = p \<and> startsWith cs ps)"

fun includes_str :: "jsstring \<Rightarrow> jsstring \<Rightarrow> bool" where
  "includes_str [] p = (p = [])"
| "includes_str (c # cs) p = (startsWith (c # cs) p \<or> includes_str cs p)"

text \<open>
  \<open>s.split(sep)\<close> for a separator that is one code unit, or a regular expression that is
  one character class: every separator ends a piece, so the empty string splits into one
  empty piece and two adjacent separators enclose an empty piece.
\<close>

fun split_on :: "(jschar \<Rightarrow> bool) \<Rightarrow> jsstring \<Rightarrow> jsstring list" where
  "split_on sep [] = [[]]"
| "split_on sep (c # cs) =
     (if sep c then [] # split_on sep cs
      else (case split_on sep cs of
              [] \<Rightarrow> [[c]]
            | piece # pieces \<Rightarrow> (c # piece) # pieces))"

definition split_lines :: "jsstring \<Rightarrow> jsstring list" where
  "split_lines s = split_on (\<lambda>c. c = LF) s"

text \<open>\<open>lines.join('\n')\<close>.\<close>

fun join_lines :: "jsstring list \<Rightarrow> jsstring" where
  "join_lines [] = []"
| "join_lines [l] = l"
| "join_lines (l # m # ls) = l @ LF # join_lines (m # ls)"

section \<open>The diagram validator (Diagram.jsx, validateMermaidSyntax)\<close>

text \<open>
  The loop over the lines: a line counts when its trimmed text is not empty, does not start
  with \<open>graph\<close> or \<open>classDef\<close>, and contains a bracket, a parenthesis, a brace or an arrow.
\<close>

definition line_has_node :: "jsstring \<Rightarrow> bool" where
  "line_has_node line =
     (let trimmed = trim line in
      trimmed \<noteq> [] \<and> \<not> startsWith trimmed (js ''graph'') \<and>
      \<not> startsWith trimmed (js ''classDef'') \<and>
      (includes_str trimmed (js ''['') \<or> includes_str trimmed (js ''('') \<or>
       includes_str trimmed (js ''{'') \<or> includes_str trimmed (js ''-->'')))"

fun scan_lines :: "jsstring list \<Rightarrow> bool \<Rightarrow> bool" where
  "scan_lines [] hasNodes = hasNodes"
| "scan_lines (line # rest) hasNodes =
     scan_lines rest (if line_has_node line then True else hasNodes)"

text \<open>The body of the \<open>try\<close> block: \<open>Inl\<close> is a thrown error.\<close>

definition validate_try :: "jsval \<Rightarrow> js_error + bool" where
  "validate_try mermaidCode =
     (case mermaidCode of
        JString code \<Rightarrow>
          if code = [] then Inl (Error (js ''Invalid mermaid code type''))
          else if \<not> includes_str code (js ''graph TD'') \<and> \<not> includes_str code (js ''graph LR'')
          then Inl (Error (js ''Missing graph declaration''))
          else if \<not> scan_lines (split_lines code) False
          then Inl (Error (js ''No valid nodes or edges found''))
          else Inr True
      | _ \<Rightarrow> Inl (Error (js ''Invalid mermaid code type'')))"

text \<open>The function: whatever the body throws is caught and answered with \<open>false\<close>.\<close>

definition validateMermaidSyntax :: "jsval \<Rightarrow> bool" where
  "validateMermaidSyntax mermaidCode =
     (case validate_try mermaidCode of Inr b \<Rightarrow> b | Inl e \<Rightarrow> False)"

section \<open>The cleaner (Diagram.jsx, cleanMermaidCode)\<close>

text \<open>
  The character class of the glyph-stripping regular expression has no \<open>u\<close> flag, so it is
  a set of code units: the symbols of the Basic Multilingual Plane it lists, the variation
  selector U+FE0F, and both halves of every surrogate pair it lists.
\<close>

definition is_glyph :: "jschar \<Rightarrow> bool" where
  "is_glyph c = (c \<in> set [9203, 9208, 9881, 9989, 10060, 10067, 55356, 55357, 56421, 56499,
     56541, 56550, 56551, 56580, 56960, 57225, 57281, 57325, 57335, 65039])"

definition strip_glyphs :: "jsstring \<Rightarrow> jsstring" where
  "strip_glyphs line = filter (\<lambda>c. \<not> is_glyph c) line"

text \<open>The loop over the lines; \<open>cleanedLines\<close> is the array being filled.\<close>

fun clean_lines :: "jsstring list \<Rightarrow> jsstring list \<Rightarrow> jsstring list" where
  "clean_lines cleanedLines [] = cleanedLines"
| "clean_lines cleanedLines (line # rest) =
     (let cleaned = trim (strip_glyphs line) in
      if cleaned \<noteq> [] \<or>
         (length cleanedLines = 1 \<and> startsWith (cleanedLines ! 0) (js ''graph''))
      then clean_lines (cleanedLines @ [cleaned]) rest
      else clean_lines cleanedLines rest)"

text \<open>The diagram the cleaner substitutes: the template literal, with its indentation.\<close>

definition minimalDiagram :: jsstring where
  "minimalDiagram =
     js ''graph TD'' @ LF #
     js ''    A['' @ DQUOTE # js ''Start'' @ DQUOTE # js ''] --> B['' @ DQUOTE # js ''Process'' @
       DQUOTE # js '']'' @ LF #
     js ''    B --> C['' @ DQUOTE # js ''End'' @ DQUOTE # js '']'' @ LF #
     js ''    classDef default fill:#f9f9f9,stroke:#333,stroke-width:2px''"

definition cleanMermaidCode :: "jsval \<Rightarrow> jsval" where
  "cleanMermaidCode mermaidCode =
     (case mermaidCode of
        JString code \<Rightarrow>
          if code = [] then JNull
          else
            (let cleanedLines = clean_lines [] (split_lines code) in
             if cleanedLines = [] \<or> \<not> startsWith (cleanedLines ! 0) (js ''graph'')
             then JString minimalDiagram
             else JString (join_lines cleanedLines))
      | _ \<Rightarrow> JNull)"

section \<open>The rendering normalizer (MermaidRenderer.jsx, normalizedChart)\<close>

text \<open>
  \<open>s.replace(re, replacement)\<close> for a global regular expression without anchors or look-behind:
  whether it matches at a position depends only on the text from there on. A matcher takes that
  text and answers with the replacement text and the number of code units matched. The scan
  goes from left to right: after a match it resumes behind it (an empty match copies one
  code unit before the scan resumes), elsewhere it copies one code unit.
\<close>

type_synonym matcher = "jsstring \<Rightarrow> (jsstring \<times> nat) option"

function replace_all :: "matcher \<Rightarrow> jsstring \<Rightarrow> jsstring" where
  "replace_all m [] = (case m [] of None \<Rightarrow> [] | Some (rep, n) \<Rightarrow> rep)"
| "replace_all m (c # cs) =
     (case m (c # cs) of
        None \<Rightarrow> c # replace_all m cs
      | Some (rep, n) \<Rightarrow>
          if n = 0 then rep @ c # replace_all m cs
          else rep @ replace_all m (drop n (c # cs)))"
  by pat_completeness auto
termination
  by (relation "measure (\<lambda>(m, s). length s)") auto

text \<open>\<open>/\\n/g\<close> to a line feed: a backslash followed by the letter n.\<close>

definition escaped_newline :: matcher where
  "escaped_newline s = (if startsWith s [BACKSLASH, 110] then Some ([LF], 2) else None)"

text \<open>\<open>/\\r/g\<close> to nothing: a backslash followed by the letter r.\<close>

definition escaped_return :: matcher where
  "escaped_return s = (if startsWith s [BACKSLASH, 114] then Some ([], 2) else None)"

text \<open>\<open>/\r\n?/g\<close> to a line feed.\<close>

definition crlf :: matcher where
  "crlf s =
     (case s of
        [] \<Rightarrow> None
      | c # rest \<Rightarrow>
          if c = CR then (if startsWith rest [LF] then Some ([LF], 2) else Some ([LF], 1))
          else None)"

text \<open>
  \<open>/\s*-->\s*\n\s*/g\<close> to \<open>' --> '\<close>. The arrow does not start with white space, so the
  first \<open>\s*\<close> takes the whole run of white space in front of it; behind the arrow the
  three factors \<open>\s*\n\s*\<close> together take the whole run of white space, and match when that
  run holds a line feed.
\<close>

definition broken_arrow :: matcher where
  "broken_arrow s =
     (let lead = takeWhile is_ws s; s1 = dropWhile is_ws s in
      if startsWith s1 (js ''-->'') then
        (let trail = takeWhile is_ws (drop 3 s1) in
         if LF \<in> set trail then Some (js '' --> '', length lead + 3 + length trail)
         else None)
      else None)"

text \<open>
  \<open>/\n\s*\|([^|]+)\|\s*/g\<close> to \<open>'|$1|'\<close>. After the line feed \<open>\s*\<close> takes the whole run of
  white space (a bar is no white space); the group takes every code unit up to the next bar,
  at least one, line feeds included; the last \<open>\s*\<close> takes the run of white space behind the
  closing bar.
\<close>

definition broken_label :: matcher where
  "broken_label s =
     (case s of
        [] \<Rightarrow> None
      | c # t \<Rightarrow>
          if c = LF then
            (let lead = takeWhile is_ws t in
             case dropWhile is_ws t of
               [] \<Rightarrow> None
             | d # t2 \<Rightarrow>
                 if d = PIPE then
                   (let label = takeWhile (\<lambda>x. x \<noteq> PIPE) t2 in
                    case dropWhile (\<lambda>x. x \<noteq> PIPE) t2 of
                      [] \<Rightarrow> None
                    | bar # t3 \<Rightarrow>
                        if label \<noteq> [] then
                          Some (PIPE # label @ [PIPE],
                            1 + length lead + 1 + length label + 1 +
                            length (takeWhile is_ws t3))
                        else None)
                 else None)
          else None)"

text \<open>\<open>/([^\n])(graph TD)/g\<close> to \<open>'$1\n$2'\<close>.\<close>

definition header_not_on_own_line :: matcher where
  "header_not_on_own_line s =
     (case s of
        [] \<Rightarrow> None
      | c # rest \<Rightarrow>
          if c \<noteq> LF \<and> startsWith rest (js ''graph TD'')
          then Some (c # LF # js ''graph TD'', 9)
          else None)"

text \<open>\<open>/(\]|\})([\w])/g\<close> to \<open>'$1\n$2'\<close>; \<open>\w\<close> is a letter, a digit or the underscore.\<close>

definition is_word :: "jschar \<Rightarrow> bool" where
  "is_word c = ((48 \<le> c \<and> c \<le> 57) \<or> (65 \<le> c \<and> c \<le> 90) \<or> c = 95 \<or> (97 \<le> c \<and> c \<le> 122))"

definition node_end_before_word :: matcher where
  "node_end_before_word s =
     (case s of
        c # d # rest \<Rightarrow>
          if (c = 93 \<or> c = 125) \<and> is_word d then Some ([c, LF, d], 2) else None
      | _ \<Rightarrow> None)"

text \<open>\<open>/(-->)([^\n])/g\<close> to \<open>'$1 $2'\<close>.\<close>

definition arrow_spacing :: matcher where
  "arrow_spacing s =
     (if startsWith s (js ''-->'') then
        (case drop 3 s of
           [] \<Rightarrow> None
         | d # rest \<Rightarrow> if d \<noteq> LF then Some (js ''--> '' @ [d], 4) else None)
      else None)"

text \<open>The chain of replacements, in the order of the source.\<close>

definition normalizeChart :: "jsstring \<Rightarrow> jsstring" where
  "normalizeChart chart =
     replace_all arrow_spacing
       (replace_all node_end_before_word
         (replace_all header_not_on_own_line
           (replace_all broken_label
             (replace_all broken_arrow
               (replace_all crlf
                 (replace_all escaped_return
                   (replace_all escaped_newline chart)))))))"

section \<open>The fallback generator (flowchartParser.js)\<close>

text \<open>\<open>String.fromCharCode(65 + i)\<close>: the code unit is taken modulo \<open>2^16\<close>.\<close>

definition nodeId :: "nat \<Rightarrow> jschar" where
  "nodeId i = (65 + i) mod 65536"

text \<open>\<open>text.replace(/"/g, "'").substring(0, 30)\<close>.\<close>

definition sanitizeForMermaid :: "jsstring \<Rightarrow> jsstring" where
  "sanitizeForMermaid text = take 30 (map (\<lambda>c. if c = DQUOTE then SQUOTE else c) text)"

text \<open>The \<open>forEach\<close> over the phrases, with its index and the text built so far.\<close>

fun add_nodes :: "jsstring list \<Rightarrow> nat \<Rightarrow> jsstring \<Rightarrow> jsstring" where
  "add_nodes [] i flowchart = flowchart"
| "add_nodes (phrase # rest) i flowchart =
     add_nodes rest (i + 1)
       (flowchart @ js ''    '' @ [nodeId i] @ js ''['' @ sanitizeForMermaid phrase @ js '']'' @ [LF])"

text \<open>
  The \<open>for\<close> loop over the connections, \<open>i < phrases.length - 1\<close>: the bound is \<open>-1\<close> for an
  empty array, so the comparison is one of integers.
\<close>

function add_connections :: "nat \<Rightarrow> nat \<Rightarrow> jsstring \<Rightarrow> jsstring" where
  "add_connections i len flowchart =
     (if int i < int len - 1
      then add_connections (i + 1) len
             (flowchart @ js ''    '' @ [nodeId i] @ js '' --> '' @ [nodeId (i + 1)] @ [LF])
      else flowchart)"
  by pat_completeness auto
termination
  by (relation "measure (\<lambda>(i, len, flowchart). len - i)") auto

declare add_connections.simps [simp del]

definition generateFallbackFlowchart :: "jsstring list \<Rightarrow> jsstring" where
  "generateFallbackFlowchart phrases =
     add_connections 0 (length phrases) (add_nodes phrases 0 (js ''flowchart TD'' @ [LF]))"

text \<open>The phrases: \<open>input.split(/[,.;:]/).map(p => p.trim()).filter(p => p.length > 0).slice(0, 5)\<close>.\<close>

definition is_clause_sep :: "jschar \<Rightarrow> bool" where
  "is_clause_sep c = (c = 44 \<or> c = 46 \<or> c = 59 \<or> c = 58)"

definition clauses :: "jsstring \<Rightarrow> jsstring list" where
  "clauses input = filter (\<lambda>p. length p > 0) (map trim (split_on is_clause_sep input))"

definition extractPhrases :: "jsstring \<Rightarrow> jsstring list" where
  "extractPhrases input = take 5 (clauses input)"

section \<open>The remote services\<close>

text \<open>
  What a \<open>fetch\<close> brings back, as far as the callers read it: nothing (the request or the
  parsing of the body failed), or the HTTP status with the value of the one field the caller
  asks for (\<open>data.flowchart\<close>, \<open>result.data.mermaid\<close>; \<open>JUndefined\<close> when it is absent).
\<close>

datatype reply = NoResponse | Response nat jsval

definition response_ok :: "nat \<Rightarrow> bool" where
  "response_ok status = (200 \<le> status \<and> status \<le> 299)"

text \<open>A number in a template literal: its decimal digits.\<close>

function digits :: "nat \<Rightarrow> jsstring" where
  "digits n = (if n < 10 then [48 + n] else digits (n div 10) @ [48 + n mod 10])"
  by pat_completeness auto
termination
  by (relation "measure (\<lambda>n. n)") auto

declare digits.simps [simp del]

text \<open>
  \<open>generateFlowchartFromAPI\<close>: \<open>(data.flowchart || '').split('\n')\<close> comes first and throws on a
  truthy value that is no string; then the status is checked, then the field.
\<close>

definition generateFlowchartFromAPI :: "reply \<Rightarrow> js_error + jsstring" where
  "generateFlowchartFromAPI r =
     (case r of
        NoResponse \<Rightarrow> Inl (Error (js ''Failed to fetch''))
      | Response status flowchart \<Rightarrow>
          if truthy flowchart \<and> \<not> is_string flowchart
          then Inl (Error (js ''flowchart.split is not a function''))
          else if \<not> response_ok status
          then Inl (Error (js ''HTTP error! status: '' @ digits status))
          else (case flowchart of
                  JString text \<Rightarrow>
                    if text \<noteq> [] then Inr text
                    else Inl (Error (js ''Invalid flowchart format received from API''))
                | _ \<Rightarrow> Inl (Error (js ''Invalid flowchart format received from API''))))"

text \<open>\<open>createFlowchartFromBackend\<close>: the status is checked first, then the field.\<close>

definition createFlowchartFromBackend :: "reply \<Rightarrow> js_error + jsval" where
  "createFlowchartFromBackend r =
     (case r of
        NoResponse \<Rightarrow> Inl (Error (js ''Failed to fetch''))
      | Response status mermaid \<Rightarrow>
          if \<not> response_ok status
          then Inl (Error (js ''HTTP error! Status: '' @ digits status))
          else if truthy mermaid then Inr mermaid
          else Inl (Error (js ''No Mermaid data in response'')))"

section \<open>The parser (flowchartParser.js, parseFlowchartInput)\<close>

text \<open>The inner \<open>try\<close>: the service's answer, kept when it starts like a diagram.\<close>

definition api_attempt :: "reply \<Rightarrow> js_error + jsstring" where
  "api_attempt r =
     (case generateFlowchartFromAPI r of
        Inl e \<Rightarrow> Inl e
      | Inr result \<Rightarrow>
          if result \<noteq> [] \<and>
             (startsWith (trim result) (js ''flowchart'') \<or> startsWith (trim result) (js ''graph''))
          then Inr result
          else Inl (Error (js ''API returned invalid flowchart syntax'')))"

text \<open>The outer \<open>try\<close>: the phrases, the inner \<open>try\<close> and its \<open>catch\<close>.\<close>

definition parse_try :: "reply \<Rightarrow> jsstring \<Rightarrow> js_error + jsstring" where
  "parse_try r input =
     (let phrases = extractPhrases input in
      case api_attempt r of
        Inr result \<Rightarrow> Inr result
      | Inl apiError \<Rightarrow> Inr (generateFallbackFlowchart phrases))"

text \<open>The diagram of the outer \<open>catch\<close>, around the message with its double quotes replaced.\<close>

definition errorDiagram :: "jsstring \<Rightarrow> jsstring" where
  "errorDiagram msg =
     js ''flowchart TD'' @ LF #
     js ''    A[Start] '' @ LF #
     js ''    B['' @ DQUOTE # js ''Error: '' @ map (\<lambda>c. if c = DQUOTE then SQUOTE else c) msg @
       DQUOTE # js '']'' @ LF #
     js ''    C[End]'' @ LF #
     js ''    A --> B'' @ LF #
     js ''    B --> C''"

definition parseFlowchartInput :: "reply \<Rightarrow> jsstring \<Rightarrow> jsstring" where
  "parseFlowchartInput r input =
     (case parse_try r input of
        Inr diagram \<Rightarrow> diagram
      | Inl (Error msg) \<Rightarrow> errorDiagram msg)"

section \<open>The page (Diagram.jsx): analyzeInput, handleInputChange, handleSubmit\<close>

text \<open>The levels are the strings \<open>'info'\<close>, \<open>'warning'\<close> and \<open>'severe'\<close> of the source.\<close>

datatype level = Info | Warning | Severe

record input_warning =
  level :: level
  message :: jsstring

text \<open>
  \<open>text.split(/\s+/)\<close>: every maximal run of white space separates two pieces; the piece
  before a leading run and the piece after a trailing run are empty.
\<close>

function split_ws :: "jsstring \<Rightarrow> jsstring list" where
  "split_ws s =
     (case dropWhile (\<lambda>c. \<not> is_ws c) s of
        [] \<Rightarrow> [takeWhile (\<lambda>c. \<not> is_ws c) s]
      | w # rest \<Rightarrow> takeWhile (\<lambda>c. \<not> is_ws c) s # split_ws (dropWhile is_ws rest))"
  by pat_completeness auto
termination
proof (relation "measure length")
  fix s :: jsstring and w rest
  assume "dropWhile (\<lambda>c. \<not> is_ws c) s = w # rest"
  then have "length rest < length s"
    by (metis length_dropWhile_le length_Cons not_less_eq_eq not_less)
  moreover have "length (dropWhile is_ws rest) \<le> length rest"
    by (rule length_dropWhile_le)
  ultimately show "(dropWhile is_ws rest, s) \<in> measure length"
    by simp
qed simp

declare split_ws.simps [simp del]

definition wordCount :: "jsstring \<Rightarrow> nat" where
  "wordCount text = length (filter (\<lambda>word. length word > 0) (split_ws text))"

text \<open>\<open>analyzeInput\<close>: the value it passes to \<open>setInputWarning\<close>.\<close>

definition analyzeInput :: "jsstring \<Rightarrow> input_warning option" where
  "analyzeInput text =
     (let len = length text; counts = digits len @ js '' chars, '' @ digits (wordCount text) in
      if len > 3000 then
        Some \<lparr>level = Severe,
          message = js ''Very long input ('' @ counts @ js '' words). Will be processed in chunks.''\<rparr>
      else if len > 2000 then
        Some \<lparr>level = Warning,
          message = js ''Long input ('' @ counts @
            js '' words). May be simplified for better processing.''\<rparr>
      else if len > 1000 then
        Some \<lparr>level = Info,
          message = js ''Medium input ('' @ counts @ js '' words). Should process well.''\<rparr>
      else None)"

text \<open>
  The state of the page: the React state variables, and the toasts shown so far. \<open>selected\<close>
  is \<open>null\<close> or the name of a diagram type.
\<close>

record page =
  selected :: "jsstring option"
  input :: jsstring
  mermaidCode :: jsval
  loading :: bool
  error :: "jsstring option"
  inputWarning :: "input_warning option"
  toasts :: "jsstring list"

definition handleInputChange :: "jsstring \<Rightarrow> page \<Rightarrow> page" where
  "handleInputChange newValue st =
     (let st1 = st\<lparr>input := newValue\<rparr> in
      if selected st1 = Some (js ''Flowchart'')
      then st1\<lparr>inputWarning := analyzeInput newValue\<rparr>
      else st1\<lparr>inputWarning := None\<rparr>)"

text \<open>The two services, each answering the text it is sent.\<close>

record services =
  backend :: "jsstring \<Rightarrow> reply"
  api :: "jsstring \<Rightarrow> reply"

text \<open>
  The diagram \<open>handleSubmit\<close> falls back on, around \<open>selected || 'Process'\<close>; the second line
  of the template literal is indented by six spaces.
\<close>

definition placeholderDiagram :: "jsstring option \<Rightarrow> jsstring" where
  "placeholderDiagram sel =
     js ''graph TD'' @ LF #
     js ''      A['' @ DQUOTE # js ''Start'' @ DQUOTE # js ''] --> B['' @ DQUOTE #
       (case sel of None \<Rightarrow> js ''Process'' | Some name \<Rightarrow> if name = [] then js ''Process'' else name) @
       DQUOTE # js ''] --> C['' @ DQUOTE # js ''End'' @ DQUOTE # js '']''"

text \<open>The body of the \<open>try\<close> block of \<open>handleSubmit\<close>.\<close>

definition submit_try :: "services \<Rightarrow> page \<Rightarrow> js_error + page" where
  "submit_try sv st =
     (let (generatedDiagram, st1) =
        (if selected st = Some (js ''Flowchart'') then
           (case createFlowchartFromBackend (backend sv (input st)) of
              Inr mermaid \<Rightarrow> (mermaid, st)
            | Inl backendError \<Rightarrow>
                (JString (parseFlowchartInput (api sv (input st)) (input st)),
                 st\<lparr>toasts := toasts st @ [js ''Used fallback processing'']\<rparr>))
         else (JString (parseFlowchartInput (api sv (input st)) (input st)), st))
      in Inr (st1\<lparr>mermaidCode :=
                 if truthy generatedDiagram then generatedDiagram
                 else JString (placeholderDiagram (selected st))\<rparr>))"

definition handleSubmit :: "services \<Rightarrow> page \<Rightarrow> page" where
  "handleSubmit sv st =
     (if trim (input st) = [] then st\<lparr>error := Some (js ''Please enter a description'')\<rparr>
      else
        (let st1 = st\<lparr>loading := True, error := None, mermaidCode := JString []\<rparr>;
             st2 = (case submit_try sv st1 of
                      Inr st' \<Rightarrow> st'
                    | Inl (Error msg) \<Rightarrow>
                        st1\<lparr>error := Some (js ''Failed to generate diagram: '' @ msg),
                            mermaidCode := JString (placeholderDiagram (selected st1))\<rparr>)
         in st2\<lparr>loading := False\<rparr>))"

text \<open>
  The page as React creates it (the initial values of the \<open>useState\<close> calls), and the two
  services when neither can be reached.
\<close>

definition initialPage :: page where
  "initialPage =
     \<lparr>selected = None, input = [], mermaidCode = JString [], loading = False, error = None,
      inputWarning = None, toasts = []\<rparr>"

definition unreachable :: services where
  "unreachable = \<lparr>backend = (\<lambda>text. NoResponse), api = (\<lambda>text. NoResponse)\<rparr>"

text \<open>The line the fallback generator writes for the node of index \<open>k\<close>, and the line for the
  connection from the node of index \<open>k\<close> to the next one.\<close>

definition node_line :: "nat \<Rightarrow> jsstring \<Rightarrow> jsstring" where
  "node_line k phrase = js ''    '' @ [nodeId k] @ js ''['' @ sanitizeForMermaid phrase @ js '']'' @ [LF]"

definition edge_line :: "nat \<Rightarrow> jsstring" where
  "edge_line k = js ''    '' @ [nodeId k] @ js '' --> '' @ [nodeId (k + 1)] @ [LF]"

text \<open>The text of a node line and of a connection line of the fallback document, without the
  line feed that ends it.\<close>

definition node_text :: "nat \<Rightarrow> jsstring \<Rightarrow> jsstring" where
  "node_text k phrase = js ''    '' @ [nodeId k] @ js ''['' @ sanitizeForMermaid phrase @ js '']''"

definition edge_text :: "nat \<Rightarrow> jsstring" where
  "edge_text k = js ''    '' @ [nodeId k] @ js '' --> '' @ [nodeId (k + 1)]"

text \<open>The submissions whose document comes from \<open>parseFlowchartInput\<close>: a diagram type other
  than the flow chart is selected, or the backend failed.\<close>

definition from_parser :: "services \<Rightarrow> page \<Rightarrow> bool" where
  "from_parser sv st \<longleftrightarrow>
     selected st \<noteq> Some (js ''Flowchart'') \<or>
     (\<exists>e. createFlowchartFromBackend (backend sv (input st)) = Inl e)"

text \<open>The three tests of the validator, by name: \<open>graph TD\<close> or \<open>graph LR\<close> occurs somewhere in
  the document; the trimmed text of a line starts with \<open>graph\<close> or \<open>classDef\<close>, so that the line
  is skipped; a line contains \<open>[\<close>, \<open>(\<close>, \<open>{\<close> or \<open>-->\<close>.\<close>

definition has_orientation_header :: "jsstring \<Rightarrow> bool" where
  "has_orientation_header d \<longleftrightarrow> includes_str d (js ''graph TD'') \<or> includes_str d (js ''graph LR'')"

definition is_header_or_style_line :: "jsstring \<Rightarrow> bool" where
  "is_header_or_style_line line \<longleftrightarrow>
     startsWith (trim line) (js ''graph'') \<or> startsWith (trim line) (js ''classDef'')"

definition has_syntax_token :: "jsstring \<Rightarrow> bool" where
  "has_syntax_token line \<longleftrightarrow>
     includes_str line (js ''['') \<or> includes_str line (js ''('') \<or>
     includes_str line (js ''{'') \<or> includes_str line (js ''-->'')"

text \<open>The minimal diagram after one more pass of the cleaner: its lines without their
  indentation.\<close>

definition minimalDiagramTrimmed :: jsstring where
  "minimalDiagramTrimmed =
     js ''graph TD'' @ LF #
     js ''A['' @ DQUOTE # js ''Start'' @ DQUOTE # js ''] --> B['' @ DQUOTE # js ''Process'' @
       DQUOTE # js '']'' @ LF #
     js ''B --> C['' @ DQUOTE # js ''End'' @ DQUOTE # js '']'' @ LF #
     js ''classDef default fill:#f9f9f9,stroke:#333,stroke-width:2px''"

text \<open>The content lines of a document, in the words of the cleaner's specification: its lines
  with the glyphs stripped and the white space trimmed, the blank ones dropped.\<close>

definition content_lines :: "jsstring \<Rightarrow> jsstring list" where
  "content_lines code =
     filter (\<lambda>l. l \<noteq> []) (map (\<lambda>line. trim (strip_glyphs line)) (split_lines code))"

text \<open>A pattern of the normalizer occurs in a text when its matcher succeeds at some position,
  the end of the text included.\<close>

fun matches_somewhere :: "matcher \<Rightarrow> jsstring \<Rightarrow> bool" where
  "matches_somewhere m [] = (m [] \<noteq> None)"
| "matches_somewhere m (c # cs) = (m (c # cs) \<noteq> None \<or> matches_somewhere m cs)"

text \<open>The charts in which none of the first seven patterns of the normalizer occurs, so that
  only the spacing of the arrows is left to do.\<close>

definition first_seven_idle :: "jsstring \<Rightarrow> bool" where
  "first_seven_idle chart \<longleftrightarrow>
     \<not> matches_somewhere escaped_newline chart \<and>
     \<not> matches_somewhere escaped_return chart \<and>
     \<not> matches_somewhere crlf chart \<and>
     \<not> matches_somewhere broken_arrow chart \<and>
     \<not> matches_somewhere broken_label chart \<and>
     \<not> matches_somewhere header_not_on_own_line chart \<and>
     \<not> matches_somewhere node_end_before_word chart"

text \<open>A text and the same text with a space put directly behind some of its \<open>>\<close> signs: how the
  spacing of the arrows changes a chart.\<close>

inductive spaced :: "jsstring \<Rightarrow> jsstring \<Rightarrow> bool" where
  spaced_Nil: "spaced [] []"
| spaced_Keep: "spaced s t \<Longrightarrow> spaced (c # s) (c # t)"
| spaced_Space: "spaced s t \<Longrightarrow> spaced (62 # s) (62 # 32 # t)"

section \<open>Strings: searching\<close>

lemma js_Nil: "js [] = []"
  by (simp add: js_def)

lemma js_Cons: "js (c # cs) = of_char c # js cs"
  by (simp add: js_def)

lemma startsWith_iff: "startsWith s p \<longleftrightarrow> (\<exists>t. s = p @ t)"
  by (induction s p rule: startsWith.induct) auto

lemma includes_str_iff: "includes_str s p \<longleftrightarrow> (\<exists>a b. s = a @ p @ b)"
proof (induction s)
  case Nil
  then show ?case by auto
next
  case (Cons c cs)
  show ?case
  proof
    assume "includes_str (c # cs) p"
    then consider "startsWith (c # cs) p" | "includes_str cs p" by auto
    then show "\<exists>a b. c # cs = a @ p @ b"
    proof cases
      case 1
      then obtain t where "c # cs = p @ t" by (auto simp: startsWith_iff)
      then have "c # cs = [] @ p @ t" by simp
      then show ?thesis by blast
    next
      case 2
      then obtain a b where "cs = a @ p @ b" using Cons.IH by blast
      then have "c # cs = (c # a) @ p @ b" by simp
      then show ?thesis by blast
    qed
  next
    assume "\<exists>a b. c # cs = a @ p @ b"
    then obtain a b where ab: "c # cs = a @ p @ b" by blast
    show "includes_str (c # cs) p"
    proof (cases a)
      case Nil
      then have "startsWith (c # cs) p" using ab by (auto simp: startsWith_iff)
      then show ?thesis by simp
    next
      case (Cons x a')
      then have "cs = a' @ p @ b" using ab by simp
      then have "includes_str cs p" using Cons.IH by blast
      then show ?thesis by simp
    qed
  qed
qed

lemma trim_empty_iff: "trim s = [] \<longleftrightarrow> (\<forall>c\<in>set s. is_ws c)"
proof -
  have "trim s = [] \<longleftrightarrow> dropWhile is_ws (rev (dropWhile is_ws s)) = []"
    by (simp add: trim_def)
  also have "\<dots> \<longleftrightarrow> (\<forall>c\<in>set (dropWhile is_ws s). is_ws c)"
    by simp
  also have "\<dots> \<longleftrightarrow> dropWhile is_ws s = []"
    by (metis dropWhile_eq_Nil_conv dropWhile_idem)
  also have "\<dots> \<longleftrightarrow> (\<forall>c\<in>set s. is_ws c)"
    by simp
  finally show ?thesis .
qed

section \<open>Strings: trimming and splitting\<close>

lemma dropWhile_ws_Cons: "\<not> is_ws c \<Longrightarrow> dropWhile is_ws (c # cs) = c # cs"
  by simp

lemma trim_keeps_prefix:
  assumes "p \<noteq> []" and "\<not> is_ws (hd p)" and "\<not> is_ws (last p)"
  shows "\<exists>t'. trim (p @ t) = p @ t'"
proof -
  from assms obtain c cs where p: "p = c # cs" and c: "\<not> is_ws c"
    by (cases p) auto
  have front: "dropWhile is_ws (p @ t) = p @ t"
    using p c by simp
  have hd_rev: "dropWhile is_ws (rev p) = rev p"
    using assms by (cases "rev p") (auto simp: hd_rev)
  have "\<exists>u. dropWhile is_ws (rev t @ rev p) = u @ rev p"
  proof (cases "\<forall>x\<in>set (rev t). is_ws x")
    case True
    then have "dropWhile is_ws (rev t @ rev p) = dropWhile is_ws (rev p)"
      by (simp add: dropWhile_append)
    then show ?thesis using hd_rev by simp
  next
    case False
    then have "dropWhile is_ws (rev t @ rev p) = dropWhile is_ws (rev t) @ rev p"
      by (auto simp: dropWhile_append)
    then show ?thesis by blast
  qed
  then obtain u where "dropWhile is_ws (rev t @ rev p) = u @ rev p" by blast
  then have "trim (p @ t) = p @ rev u"
    by (simp add: trim_def front)
  then show ?thesis by blast
qed

lemma startsWith_trim:
  assumes "startsWith s p" and "p \<noteq> []" and "\<not> is_ws (hd p)" and "\<not> is_ws (last p)"
  shows "startsWith (trim s) p"
proof -
  from assms(1) obtain t where "s = p @ t" by (auto simp: startsWith_iff)
  with trim_keeps_prefix [OF assms(2-4), of t] show ?thesis
    by (auto simp: startsWith_iff)
qed

lemma set_trim_subset: "set (trim s) \<subseteq> set s"
proof
  fix x assume "x \<in> set (trim s)"
  then have "x \<in> set (dropWhile is_ws (rev (dropWhile is_ws s)))"
    by (simp add: trim_def)
  then have "x \<in> set (rev (dropWhile is_ws s))" by (rule set_dropWhileD)
  then have "x \<in> set (dropWhile is_ws s)" by simp
  then show "x \<in> set s" by (rule set_dropWhileD)
qed

lemma split_on_not_Nil: "split_on sep s \<noteq> []"
  by (induction s) (auto split: list.splits)

lemma split_on_Cons_keep:
  "\<not> sep c \<Longrightarrow> split_on sep (c # cs) = (c # hd (split_on sep cs)) # tl (split_on sep cs)"
  using split_on_not_Nil [of sep cs] by (cases "split_on sep cs") auto

lemma split_on_Cons_sep: "sep c \<Longrightarrow> split_on sep (c # cs) = [] # split_on sep cs"
  by simp

lemmas split_on_Cons = split_on_Cons_sep split_on_Cons_keep

lemma split_on_append_sep:
  "\<forall>x\<in>set a. \<not> sep x \<Longrightarrow> sep c \<Longrightarrow> split_on sep (a @ c # r) = a # split_on sep r"
  by (induction a) (simp_all add: split_on_Cons del: split_on.simps(2))

lemma split_on_no_sep: "\<forall>x\<in>set a. \<not> sep x \<Longrightarrow> split_on sep a = [a]"
  by (induction a) (simp_all add: split_on_Cons del: split_on.simps(2))

lemma hd_split_on: "hd (split_on sep s) = takeWhile (\<lambda>c. \<not> sep c) s"
  by (induction s) (simp_all add: split_on_Cons del: split_on.simps(2))

lemma concat_split_on: "concat (split_on sep s) = filter (\<lambda>c. \<not> sep c) s"
proof (induction s)
  case Nil
  then show ?case by simp
next
  case (Cons c cs)
  show ?case
  proof (cases "sep c")
    case True
    then show ?thesis using Cons by simp
  next
    case False
    have "concat (split_on sep (c # cs)) = c # concat (hd (split_on sep cs) # tl (split_on sep cs))"
      using False by (simp add: split_on_Cons del: split_on.simps(2))
    also have "hd (split_on sep cs) # tl (split_on sep cs) = split_on sep cs"
      using split_on_not_Nil by simp
    finally show ?thesis using False Cons by simp
  qed
qed

lemma pieces_have_no_sep: "piece \<in> set (split_on sep s) \<Longrightarrow> \<forall>x\<in>set piece. \<not> sep x"
proof (induction s arbitrary: piece)
  case Nil
  then show ?case by simp
next
  case (Cons c cs)
  show ?case
  proof (cases "sep c")
    case True
    then show ?thesis using Cons by auto
  next
    case False
    then have "piece = c # hd (split_on sep cs) \<or> piece \<in> set (tl (split_on sep cs))"
      using Cons.prems by (simp add: split_on_Cons del: split_on.simps(2))
    moreover have "hd (split_on sep cs) \<in> set (split_on sep cs)"
      using split_on_not_Nil by simp
    moreover have "set (tl (split_on sep cs)) \<subseteq> set (split_on sep cs)"
      using split_on_not_Nil [of sep cs] by (cases "split_on sep cs") auto
    ultimately show ?thesis using False Cons.IH by auto
  qed
qed

lemma trim_not_ws_ends:
  assumes "trim s \<noteq> []"
  shows "\<not> is_ws (hd (trim s))" and "\<not> is_ws (last (trim s))"
proof -
  let ?u = "dropWhile is_ws s"
  let ?z = "dropWhile is_ws (rev ?u)"
  have z: "?z \<noteq> []" using assms by (simp add: trim_def)
  then have "\<not> is_ws (hd ?z)" by (rule hd_dropWhile)
  then show "\<not> is_ws (last (trim s))"
    using z by (simp add: trim_def last_rev)
  have u: "?u \<noteq> []"
  proof
    assume "?u = []"
    then have "?z = []" by (simp del: dropWhile_eq_Nil_conv)
    then show False using z by simp
  qed
  then have hu: "\<not> is_ws (hd ?u)" by (rule hd_dropWhile)
  obtain w where "rev ?u = w @ ?z"
    by (metis takeWhile_dropWhile_id)
  then have "last ?z = last (rev ?u)" using z by (metis last_appendR)
  then have "last ?z = hd ?u" using u by (simp add: last_rev)
  then show "\<not> is_ws (hd (trim s))"
    using hu z by (simp add: trim_def hd_rev)
qed

lemma trim_fixed:
  assumes "s \<noteq> [] \<longrightarrow> \<not> is_ws (hd s) \<and> \<not> is_ws (last s)"
  shows "trim s = s"
proof (cases s)
  case Nil
  then show ?thesis by (simp add: trim_def)
next
  case (Cons c cs)
  then have front: "dropWhile is_ws s = s" using assms by simp
  have "s \<noteq> []" using Cons by simp
  then have "rev s \<noteq> []" and "\<not> is_ws (hd (rev s))"
    using assms by (simp_all only: hd_rev rev_is_Nil_conv not_False_eq_True)
  then have "dropWhile is_ws (rev s) = rev s"
    by (cases "rev s") auto
  then show ?thesis by (simp add: trim_def front)
qed

lemma trim_idem: "trim (trim s) = trim s"
  using trim_not_ws_ends [of s] by (intro trim_fixed) auto

lemma trim_drop_leading: "is_ws c \<Longrightarrow> trim (c # s) = trim s"
  by (simp add: trim_def)

lemma includes_str_dropWhile:
  assumes "p \<noteq> []" and "\<not> is_ws (hd p)"
  shows "includes_str (dropWhile is_ws s) p = includes_str s p"
proof (induction s)
  case Nil
  then show ?case by simp
next
  case (Cons c cs)
  show ?case
  proof (cases "is_ws c")
    case True
    then have "\<not> startsWith (c # cs) p"
      using assms by (cases p) auto
    then show ?thesis using True Cons by simp
  next
    case False
    then show ?thesis by simp
  qed
qed

lemma includes_str_rev: "includes_str (rev s) (rev p) = includes_str s p"
proof -
  have "(\<exists>a b. rev s = a @ rev p @ b) \<longleftrightarrow> (\<exists>a b. s = a @ p @ b)"
  proof
    assume "\<exists>a b. rev s = a @ rev p @ b"
    then obtain a b where "rev s = a @ rev p @ b" by blast
    then have "rev (rev s) = rev (a @ rev p @ b)" by simp
    then have "s = rev b @ p @ rev a" by simp
    then show "\<exists>a b. s = a @ p @ b" by blast
  next
    assume "\<exists>a b. s = a @ p @ b"
    then obtain a b where "s = a @ p @ b" by blast
    then have "rev s = rev b @ rev p @ rev a" by simp
    then show "\<exists>a b. rev s = a @ rev p @ b" by blast
  qed
  then show ?thesis by (simp add: includes_str_iff)
qed

lemma includes_str_trim:
  assumes "p \<noteq> []" and "\<not> is_ws (hd p)" and "\<not> is_ws (last p)"
  shows "includes_str (trim s) p = includes_str s p"
proof -
  have rp: "rev p \<noteq> []" "\<not> is_ws (hd (rev p))"
    using assms by (simp_all add: hd_rev)
  have "includes_str (trim s) p =
        includes_str (rev (dropWhile is_ws (rev (dropWhile is_ws s)))) (rev (rev p))"
    by (simp add: trim_def)
  also have "\<dots> = includes_str (dropWhile is_ws (rev (dropWhile is_ws s))) (rev p)"
    by (rule includes_str_rev)
  also have "\<dots> = includes_str (rev (dropWhile is_ws s)) (rev p)"
    using rp by (rule includes_str_dropWhile)
  also have "\<dots> = includes_str (dropWhile is_ws s) p"
    by (rule includes_str_rev)
  also have "\<dots> = includes_str s p"
    using assms(1,2) by (rule includes_str_dropWhile)
  finally show ?thesis .
qed

lemma includes_str_not_Nil: "includes_str s p \<Longrightarrow> p \<noteq> [] \<Longrightarrow> s \<noteq> []"
  by (cases s) auto

section \<open>The validator at its interface\<close>

lemma validate_try_not_string:
  "(\<forall>s. v = JString s \<longrightarrow> s = []) \<Longrightarrow> validate_try v = Inl (Error (js ''Invalid mermaid code type''))"
  by (cases v) (auto simp: validate_try_def)

lemma validate_try_cases:
  "validate_try v = Inr True \<or> (\<exists>msg. validate_try v = Inl (Error msg))"
  by (cases v) (auto simp: validate_try_def)

text \<open>
  Claim C10. \<open>validateMermaidSyntax\<close> answers every value with a boolean: the body of its
  \<open>try\<close> block either returns \<open>true\<close> or throws an error, the \<open>catch\<close> turns every thrown
  error into \<open>false\<close>, and every function involved is total. For a value that is not a
  non-empty string (\<open>null\<close>, \<open>undefined\<close>, the empty string, a number, an object) the body
  throws the type error and the answer is \<open>false\<close>.
\<close>

theorem validateMermaidSyntax_total:
  "(validate_try v = Inr True \<or> (\<exists>msg. validate_try v = Inl (Error msg))) \<and>
   (validateMermaidSyntax v \<longleftrightarrow> validate_try v = Inr True) \<and>
   ((\<forall>s. v = JString s \<longrightarrow> s = []) \<longrightarrow>
      validate_try v = Inl (Error (js ''Invalid mermaid code type'')) \<and>
      validateMermaidSyntax v = False)"
proof (intro conjI impI)
  show "validate_try v = Inr True \<or> (\<exists>msg. validate_try v = Inl (Error msg))"
    by (rule validate_try_cases)
  show "validateMermaidSyntax v \<longleftrightarrow> validate_try v = Inr True"
    using validate_try_cases [of v] by (auto simp: validateMermaidSyntax_def)
next
  assume h: "\<forall>s. v = JString s \<longrightarrow> s = []"
  then show "validate_try v = Inl (Error (js ''Invalid mermaid code type''))"
    by (rule validate_try_not_string)
  then show "validateMermaidSyntax v = False"
    by (simp add: validateMermaidSyntax_def)
qed

theorem validateMermaidSyntax_total_witness:
  "validate_try JNull = Inl (Error (js ''Invalid mermaid code type'')) \<and>
   validateMermaidSyntax JNull = False \<and>
   validate_try (JString []) = Inl (Error (js ''Invalid mermaid code type'')) \<and>
   validateMermaidSyntax (JString []) = False \<and>
   validateMermaidSyntax (JNumber 5) = False \<and>
   validateMermaidSyntax JUndefined = False"
  using validateMermaidSyntax_total [of JNull] validateMermaidSyntax_total [of "JString []"]
    validateMermaidSyntax_total [of "JNumber 5"] validateMermaidSyntax_total [of JUndefined]
  by simp

section \<open>The validator, line by line\<close>

lemma scan_lines_iff: "scan_lines ls h \<longleftrightarrow> h \<or> (\<exists>l\<in>set ls. line_has_node l)"
  by (induction ls arbitrary: h) auto

lemma validate_iff:
  "validateMermaidSyntax (JString d) \<longleftrightarrow>
     (includes_str d (js ''graph TD'') \<or> includes_str d (js ''graph LR'')) \<and>
     (\<exists>l\<in>set (split_lines d). line_has_node l)"
proof (cases "d = []")
  case True
  then show ?thesis
    by (simp add: validateMermaidSyntax_def validate_try_def js_def)
next
  case False
  then show ?thesis
    by (auto simp: validateMermaidSyntax_def validate_try_def scan_lines_iff)
qed

lemma line_has_node_iff:
  "line_has_node line \<longleftrightarrow> \<not> is_header_or_style_line line \<and> has_syntax_token line"
proof -
  have tok: "includes_str (trim line) (js ''['') = includes_str line (js ''['')"
    "includes_str (trim line) (js ''('') = includes_str line (js ''('')"
    "includes_str (trim line) (js ''{'') = includes_str line (js ''{'')"
    "includes_str (trim line) (js ''-->'') = includes_str line (js ''-->'')"
    by (rule includes_str_trim; simp add: js_def is_ws_def)+
  have "has_syntax_token line \<Longrightarrow> trim line \<noteq> []"
    unfolding has_syntax_token_def tok [symmetric]
    by (auto dest: includes_str_not_Nil simp: js_def)
  then show ?thesis
    unfolding line_has_node_def Let_def tok is_header_or_style_line_def has_syntax_token_def
    by blast
qed

text \<open>
  Claim C6, as the code has it. \<open>validateMermaidSyntax\<close> answers a document with \<open>false\<close>
  exactly when neither \<open>graph TD\<close> nor \<open>graph LR\<close> occurs anywhere in it, or none of its lines
  whose trimmed text starts with neither \<open>graph\<close> nor \<open>classDef\<close> contains a bracket \<open>[\<close>, a
  parenthesis \<open>(\<close>, a brace \<open>{\<close> or an arrow \<open>-->\<close>.
\<close>

theorem validateMermaidSyntax_rejects_iff:
  "validateMermaidSyntax (JString d) = False \<longleftrightarrow>
     \<not> (includes_str d (js ''graph TD'') \<or> includes_str d (js ''graph LR'')) \<or>
     \<not> (\<exists>line\<in>set (split_lines d).
          \<not> (startsWith (trim line) (js ''graph'') \<or> startsWith (trim line) (js ''classDef'')) \<and>
          (includes_str line (js ''['') \<or> includes_str line (js ''('') \<or>
           includes_str line (js ''{'') \<or> includes_str line (js ''-->'')))"
  by (simp add: validate_iff line_has_node_iff is_header_or_style_line_def has_syntax_token_def)

lemma header_line_with_token:
  "includes_str (js ''graph TD A[x]'') (js ''graph TD'') \<and>
   split_lines (js ''graph TD A[x]'') = [js ''graph TD A[x]''] \<and>
   includes_str (js ''graph TD A[x]'') (js ''['') \<and>
   startsWith (trim (js ''graph TD A[x]'')) (js ''graph'')"
  by (simp add: split_lines_def trim_def is_ws_def js_def)

lemma two_lines:
  "includes_str (js ''graph TD'' @ LF # js ''A[x]'') (js ''graph TD'') \<and>
   split_lines (js ''graph TD'' @ LF # js ''A[x]'') = [js ''graph TD'', js ''A[x]''] \<and>
   includes_str (js ''A[x]'') (js ''['') \<and>
   \<not> startsWith (trim (js ''A[x]'')) (js ''graph'') \<and>
   \<not> startsWith (trim (js ''A[x]'')) (js ''classDef'')"
  by (simp add: split_lines_def trim_def is_ws_def js_def)

theorem validateMermaidSyntax_rejects_iff_witness:
  "validateMermaidSyntax (JString (js ''graph TD A[x]'')) = False \<and>
   validateMermaidSyntax (JString (js ''hello'')) = False \<and>
   validateMermaidSyntax (JString (js ''graph TD'' @ LF # js ''A[x]'')) = True"
proof -
  have "\<not> (includes_str (js ''hello'') (js ''graph TD'') \<or>
      includes_str (js ''hello'') (js ''graph LR''))"
    by (simp add: js_def)
  then show ?thesis
    using validateMermaidSyntax_rejects_iff [of "js ''graph TD A[x]''"]
      validateMermaidSyntax_rejects_iff [of "js ''hello''"]
      validateMermaidSyntax_rejects_iff [of "js ''graph TD'' @ LF # js ''A[x]''"]
      header_line_with_token two_lines
    by simp
qed

text \<open>
  The claim as stated fails for the document \<open>graph TD A[x]\<close>: it holds the declaration
  \<open>graph TD\<close> and its one line contains a bracket, yet the validator answers \<open>false\<close>, because
  that line starts with \<open>graph\<close>. Nor is the declaration a header line: \<open>A[graph TD]\<close> has no
  line starting with \<open>graph\<close> and is accepted, and \<open>graph TB\<close> followed by the line \<open>A[x]\<close> has
  one and is rejected.
\<close>

theorem validateMermaidSyntax_token_on_header_line:
  "includes_str (js ''graph TD A[x]'') (js ''graph TD'') \<and>
   split_lines (js ''graph TD A[x]'') = [js ''graph TD A[x]''] \<and>
   includes_str (js ''graph TD A[x]'') (js ''['') \<and>
   validateMermaidSyntax (JString (js ''graph TD A[x]'')) = False \<and>
   split_lines (js ''A[graph TD]'') = [js ''A[graph TD]''] \<and>
   \<not> startsWith (trim (js ''A[graph TD]'')) (js ''graph'') \<and>
   validateMermaidSyntax (JString (js ''A[graph TD]'')) = True \<and>
   split_lines (js ''graph TB'' @ LF # js ''A[x]'') = [js ''graph TB'', js ''A[x]''] \<and>
   startsWith (trim (js ''graph TB'')) (js ''graph'') \<and>
   includes_str (js ''A[x]'') (js ''['') \<and>
   validateMermaidSyntax (JString (js ''graph TB'' @ LF # js ''A[x]'')) = False"
  by (simp add: validate_iff line_has_node_def Let_def split_lines_def trim_def is_ws_def js_def)

section \<open>The cleaner on examples\<close>

lemmas clean_eval = cleanMermaidCode_def split_lines_def strip_glyphs_def is_glyph_def
  trim_def is_ws_def js_def Let_def

lemma clean_minimalDiagram:
  "cleanMermaidCode (JString minimalDiagram) = JString minimalDiagramTrimmed"
  by (simp add: clean_eval minimalDiagram_def minimalDiagramTrimmed_def)

lemma minimalDiagramTrimmed_neq: "minimalDiagramTrimmed \<noteq> minimalDiagram"
  by (simp add: minimalDiagram_def minimalDiagramTrimmed_def js_def)

lemma clean_hello: "cleanMermaidCode (JString (js ''hello'')) = JString minimalDiagram"
  by (simp add: clean_eval)

lemma validate_minimalDiagram: "validateMermaidSyntax (JString minimalDiagram)"
  by (simp add: validateMermaidSyntax_def validate_try_def minimalDiagram_def split_lines_def
      line_has_node_def trim_def is_ws_def js_def Let_def)

section \<open>The loop of the cleaner\<close>

lemma clean_lines_prefix: "\<exists>more. clean_lines acc ls = acc @ more"
proof (induction ls arbitrary: acc)
  case Nil
  then show ?case by simp
next
  case (Cons line rest)
  show ?case
  proof (cases "trim (strip_glyphs line) \<noteq> [] \<or>
      (length acc = 1 \<and> startsWith (acc ! 0) (js ''graph''))")
    case True
    then have "clean_lines acc (line # rest) = clean_lines (acc @ [trim (strip_glyphs line)]) rest"
      by (simp add: Let_def)
    then show ?thesis
      using Cons.IH [of "acc @ [trim (strip_glyphs line)]"] by auto
  next
    case False
    then have "clean_lines acc (line # rest) = clean_lines acc rest"
      by (auto simp: Let_def)
    then show ?thesis using Cons.IH [of acc] by simp
  qed
qed

lemma clean_lines_first:
  "clean_lines [] ls =
     (case filter (\<lambda>l. l \<noteq> []) (map (\<lambda>line. trim (strip_glyphs line)) ls) of
        [] \<Rightarrow> []
      | first # others \<Rightarrow> first # tl (clean_lines [] ls))"
proof (induction ls)
  case Nil
  then show ?case by simp
next
  case (Cons line rest)
  show ?case
  proof (cases "trim (strip_glyphs line) = []")
    case True
    then have eq: "clean_lines [] (line # rest) = clean_lines [] rest"
      by (simp add: Let_def)
    have "filter (\<lambda>l. l \<noteq> []) (map (\<lambda>line. trim (strip_glyphs line)) (line # rest)) =
        filter (\<lambda>l. l \<noteq> []) (map (\<lambda>line. trim (strip_glyphs line)) rest)"
      using True by simp
    then show ?thesis unfolding eq using Cons.IH by (simp only:)
  next
    case False
    then have eq: "clean_lines [] (line # rest) = clean_lines [trim (strip_glyphs line)] rest"
      by (simp add: Let_def)
    obtain more where "clean_lines [trim (strip_glyphs line)] rest = [trim (strip_glyphs line)] @ more"
      using clean_lines_prefix by blast
    then show ?thesis using False eq by simp
  qed
qed

lemma clean_substitutes:
  assumes "code \<noteq> []"
    and "case content_lines code of [] \<Rightarrow> True | first # others \<Rightarrow> \<not> startsWith first (js ''graph'')"
  shows "cleanMermaidCode (JString code) = JString minimalDiagram"
proof -
  let ?L = "clean_lines [] (split_lines code)"
  have "?L = [] \<or> \<not> startsWith (?L ! 0) (js ''graph'')"
  proof (cases "content_lines code")
    case Nil
    then have "?L = []"
      using clean_lines_first [of "split_lines code"] by (simp add: content_lines_def)
    then show ?thesis by simp
  next
    case (Cons first others)
    then have "?L = first # tl ?L"
      using clean_lines_first [of "split_lines code"] by (simp add: content_lines_def)
    then have "?L ! 0 = first" by (metis nth_Cons_0)
    then show ?thesis using assms(2) Cons by simp
  qed
  then show ?thesis using assms(1) by (simp add: cleanMermaidCode_def Let_def)
qed

lemma clean_keeps:
  assumes "content_lines code = first # others" and "startsWith first (js ''graph'')"
  shows "cleanMermaidCode (JString code) = JString (join_lines (clean_lines [] (split_lines code)))"
proof -
  let ?L = "clean_lines [] (split_lines code)"
  have "?L = first # tl ?L"
    using assms(1) clean_lines_first [of "split_lines code"] by (simp add: content_lines_def)
  then have "?L \<noteq> []" and "?L ! 0 = first" by (metis list.distinct(1), metis nth_Cons_0)
  moreover have "code \<noteq> []"
    using assms(1) by (auto simp: content_lines_def split_lines_def trim_def strip_glyphs_def)
  ultimately show ?thesis using assms(2) by (simp add: cleanMermaidCode_def Let_def)
qed

text \<open>
  Claim C3, as the code has it. For every non-empty input string whose content lines are none,
  or whose first content line does not start with \<open>graph\<close>, the cleaner returns the minimal
  diagram, and \<open>validateMermaidSyntax\<close> accepts the minimal diagram. (The empty string never
  reaches the cleaning: the guard at the top answers it with \<open>null\<close>.)
\<close>

theorem clean_substitutes_minimalDiagram:
  assumes "code \<noteq> []"
    and "case content_lines code of [] \<Rightarrow> True | first # others \<Rightarrow> \<not> startsWith first (js ''graph'')"
  shows "cleanMermaidCode (JString code) = JString minimalDiagram \<and>
    validateMermaidSyntax (JString minimalDiagram)"
  using clean_substitutes [OF assms] validate_minimalDiagram by simp

lemma content_lines_hello: "content_lines (js ''hello'') = [js ''hello'']"
  by (simp add: content_lines_def clean_eval)

lemma content_lines_blank: "content_lines [32, LF, 9] = []"
  by (simp add: content_lines_def clean_eval)

theorem clean_substitutes_minimalDiagram_witness:
  "cleanMermaidCode (JString (js ''hello'')) = JString minimalDiagram \<and>
   cleanMermaidCode (JString [32, LF, 9]) = JString minimalDiagram \<and>
   validateMermaidSyntax (JString minimalDiagram)"
proof -
  have "\<not> startsWith (js ''hello'') (js ''graph'')" by (simp add: js_def)
  then show ?thesis
    using clean_substitutes_minimalDiagram [of "js ''hello''"]
      clean_substitutes_minimalDiagram [of "[32, LF, 9]"]
    by (simp add: content_lines_hello content_lines_blank) (simp add: js_def)
qed

text \<open>
  The claim as stated fails for the empty string: it has no content line, and the cleaner
  returns \<open>null\<close>, not the minimal diagram.
\<close>

theorem clean_empty_string:
  "content_lines [] = [] \<and> cleanMermaidCode (JString []) = JNull \<and>
   cleanMermaidCode (JString []) \<noteq> JString minimalDiagram"
  by (simp add: content_lines_def clean_eval)

section \<open>The cleaner applied twice\<close>

lemma strip_glyphs_trim: "trim (strip_glyphs (trim (strip_glyphs l))) = trim (strip_glyphs l)"
proof -
  let ?x = "strip_glyphs l"
  have "set (trim ?x) \<subseteq> set ?x" by (rule set_trim_subset)
  moreover have "\<forall>c\<in>set ?x. \<not> is_glyph c"
    unfolding strip_glyphs_def by simp
  ultimately have "\<forall>c\<in>set (trim ?x). \<not> is_glyph c" by blast
  then have "filter (\<lambda>c. \<not> is_glyph c) (trim ?x) = trim ?x" by (rule filter_True)
  then have "strip_glyphs (trim ?x) = trim ?x" unfolding strip_glyphs_def .
  then show ?thesis by (simp only: trim_idem)
qed

lemma clean_lines_rerun:
  "clean_lines acc (drop (length acc) (clean_lines acc ls)) = clean_lines acc ls"
proof (induction ls arbitrary: acc)
  case Nil
  then show ?case by simp
next
  case (Cons line rest)
  let ?c = "trim (strip_glyphs line)"
  show ?case
  proof (cases "?c \<noteq> [] \<or> (length acc = 1 \<and> startsWith (acc ! 0) (js ''graph''))")
    case True
    then have eq: "clean_lines acc (line # rest) = clean_lines (acc @ [?c]) rest"
      by (simp add: Let_def)
    obtain more where more: "clean_lines (acc @ [?c]) rest = (acc @ [?c]) @ more"
      using clean_lines_prefix by blast
    have d1: "drop (length acc) (clean_lines (acc @ [?c]) rest) = ?c # more"
      unfolding more by simp
    have d2: "drop (length (acc @ [?c])) (clean_lines (acc @ [?c]) rest) = more"
      unfolding more by simp
    have step: "clean_lines acc (?c # more) = clean_lines (acc @ [?c]) more"
    proof -
      have "trim (strip_glyphs ?c) = ?c" by (rule strip_glyphs_trim)
      then show ?thesis using True by (simp add: Let_def)
    qed
    have "clean_lines acc (drop (length acc) (clean_lines acc (line # rest))) =
        clean_lines acc (?c # more)"
      by (simp only: eq d1)
    also have "\<dots> = clean_lines (acc @ [?c]) more"
      by (rule step)
    also have "\<dots> = clean_lines (acc @ [?c]) (drop (length (acc @ [?c])) (clean_lines (acc @ [?c]) rest))"
      by (simp only: d2)
    also have "\<dots> = clean_lines (acc @ [?c]) rest"
      by (rule Cons.IH)
    also have "\<dots> = clean_lines acc (line # rest)"
      by (simp only: eq)
    finally show ?thesis .
  next
    case False
    then have "clean_lines acc (line # rest) = clean_lines acc rest"
      by (auto simp: Let_def)
    then show ?thesis using Cons.IH [of acc] by simp
  qed
qed

lemma set_clean_lines:
  "x \<in> set (clean_lines acc ls) \<Longrightarrow> x \<in> set acc \<or> (\<exists>l\<in>set ls. x = trim (strip_glyphs l))"
proof (induction ls arbitrary: acc)
  case Nil
  then show ?case by simp
next
  case (Cons line rest)
  show ?case
  proof (cases "trim (strip_glyphs line) \<noteq> [] \<or>
      (length acc = 1 \<and> startsWith (acc ! 0) (js ''graph''))")
    case True
    then have "clean_lines acc (line # rest) = clean_lines (acc @ [trim (strip_glyphs line)]) rest"
      by (simp add: Let_def)
    then show ?thesis
      using Cons.IH [of "acc @ [trim (strip_glyphs line)]"] Cons.prems by auto
  next
    case False
    then have "clean_lines acc (line # rest) = clean_lines acc rest"
      by (auto simp: Let_def)
    then show ?thesis using Cons.IH [of acc] Cons.prems by auto
  qed
qed

lemma cleaned_lines_no_LF:
  assumes "x \<in> set (clean_lines [] (split_lines code))"
  shows "LF \<notin> set x"
proof -
  from set_clean_lines [OF assms] obtain l where l: "l \<in> set (split_lines code)"
    and x: "x = trim (strip_glyphs l)" by auto
  have "LF \<notin> set l"
    using pieces_have_no_sep [of l "\<lambda>c. c = LF" code] l by (auto simp: split_lines_def)
  moreover have "set x \<subseteq> set l"
    using set_trim_subset [of "strip_glyphs l"] x by (auto simp: strip_glyphs_def)
  ultimately show ?thesis by blast
qed

lemma split_join_lines:
  "ls \<noteq> [] \<Longrightarrow> \<forall>l\<in>set ls. LF \<notin> set l \<Longrightarrow> split_lines (join_lines ls) = ls"
proof (induction ls rule: join_lines.induct)
  case 1
  then show ?case by simp
next
  case (2 l)
  then have "split_on (\<lambda>c. c = LF) l = [l]"
    by (intro split_on_no_sep) auto
  then show ?case by (simp add: split_lines_def)
next
  case (3 l m ls)
  have "split_on (\<lambda>c. c = LF) (l @ LF # join_lines (m # ls)) =
      l # split_on (\<lambda>c. c = LF) (join_lines (m # ls))"
    using 3(3) by (intro split_on_append_sep) auto
  then show ?case using 3 by (simp add: split_lines_def)
qed

lemma join_lines_not_Nil: "l \<noteq> [] \<Longrightarrow> join_lines (l # ls) \<noteq> []"
  by (cases ls) auto

lemma clean_kept_twice:
  assumes "cleanMermaidCode (JString code) = JString r" and "r \<noteq> minimalDiagram"
  shows "cleanMermaidCode (JString r) = JString r"
proof -
  let ?L = "clean_lines [] (split_lines code)"
  from assms have L: "?L \<noteq> []" "startsWith (?L ! 0) (js ''graph'')" and r: "r = join_lines ?L"
    by (auto simp: cleanMermaidCode_def Let_def split: if_splits)
  have "?L ! 0 \<noteq> []" using L(2) by (auto simp: js_def)
  then have "r \<noteq> []"
    using L(1) r by (cases ?L) (auto simp: join_lines_not_Nil)
  have "split_lines r = ?L"
    unfolding r using L(1) cleaned_lines_no_LF by (intro split_join_lines) auto
  moreover have "clean_lines [] ?L = ?L"
    using clean_lines_rerun [of "[]" "split_lines code"] by simp
  ultimately show ?thesis
    using L \<open>r \<noteq> []\<close> r by (simp add: cleanMermaidCode_def Let_def)
qed

lemma clean_results:
  "cleanMermaidCode v = JNull \<or> (\<exists>r. cleanMermaidCode v = JString r \<and> (\<exists>code. v = JString code))"
  by (cases v) (auto simp: cleanMermaidCode_def Let_def)

lemma clean_JNull: "cleanMermaidCode JNull = JNull"
  by (simp add: cleanMermaidCode_def)

lemma clean_not_substituted_idem:
  assumes "cleanMermaidCode v \<noteq> JString minimalDiagram"
  shows "cleanMermaidCode (cleanMermaidCode v) = cleanMermaidCode v"
  using clean_results [of v] assms clean_kept_twice clean_JNull by auto

lemma clean_thrice: 
  "cleanMermaidCode (cleanMermaidCode (cleanMermaidCode v)) = cleanMermaidCode (cleanMermaidCode v)"
proof (cases "cleanMermaidCode v = JString minimalDiagram")
  case True
  have "cleanMermaidCode (JString minimalDiagram) \<noteq> JString minimalDiagram"
    using minimalDiagramTrimmed_neq by (simp add: clean_minimalDiagram)
  then show ?thesis
    unfolding True by (rule clean_not_substituted_idem)
next
  case False
  then show ?thesis by (simp add: clean_not_substituted_idem)
qed

text \<open>
  Claim C4, as the code has it. The cleaner is idempotent on every input it does not answer
  with the minimal diagram. The minimal diagram itself is not a fixed point: its lines are
  indented, and a second pass trims them. From the second pass on nothing changes any more.
\<close>

theorem clean_idempotent_unless_substituted:
  "(cleanMermaidCode v \<noteq> JString minimalDiagram \<longrightarrow>
      cleanMermaidCode (cleanMermaidCode v) = cleanMermaidCode v) \<and>
   (cleanMermaidCode v = JString minimalDiagram \<longrightarrow>
      cleanMermaidCode (cleanMermaidCode v) = JString minimalDiagramTrimmed) \<and>
   cleanMermaidCode (cleanMermaidCode (cleanMermaidCode v)) = cleanMermaidCode (cleanMermaidCode v)"
  using clean_not_substituted_idem clean_thrice clean_minimalDiagram by simp

lemma clean_graph_example:
  "cleanMermaidCode (JString (js '' graph LR'' @ LF # LF # LF # js ''  A --> B '')) =
     JString (js ''graph LR'' @ LF # LF # js ''A --> B'')"
  by (simp add: clean_eval)

theorem clean_idempotent_unless_substituted_witness:
  "cleanMermaidCode (JString (js ''graph LR'' @ LF # LF # js ''A --> B'')) =
     JString (js ''graph LR'' @ LF # LF # js ''A --> B'') \<and>
   cleanMermaidCode (cleanMermaidCode (JString (js ''hello''))) = JString minimalDiagramTrimmed \<and>
   cleanMermaidCode (JString minimalDiagramTrimmed) = JString minimalDiagramTrimmed"
proof -
  let ?x = "JString (js '' graph LR'' @ LF # LF # LF # js ''  A --> B '')"
  have "cleanMermaidCode ?x \<noteq> JString minimalDiagram"
    unfolding clean_graph_example by (simp add: minimalDiagram_def js_def)
  then show ?thesis
    using clean_idempotent_unless_substituted [of ?x]
      clean_idempotent_unless_substituted [of "JString (js ''hello'')"]
    by (simp add: clean_graph_example clean_hello clean_minimalDiagram)
qed

text \<open>
  The claim as stated fails for the input \<open>hello\<close>: the first pass answers with the minimal
  diagram, the second pass with the minimal diagram without its indentation.
\<close>

theorem clean_not_idempotent:
  "cleanMermaidCode (JString (js ''hello'')) = JString minimalDiagram \<and>
   cleanMermaidCode (cleanMermaidCode (JString (js ''hello''))) = JString minimalDiagramTrimmed \<and>
   cleanMermaidCode (cleanMermaidCode (JString (js ''hello''))) \<noteq>
     cleanMermaidCode (JString (js ''hello''))"
  using minimalDiagramTrimmed_neq by (simp add: clean_hello clean_minimalDiagram)

section \<open>The rendering normalizer\<close>

lemma replace_all_no_match:
  "(\<And>a t. s = a @ t \<Longrightarrow> m t = None) \<Longrightarrow> replace_all m s = s"
proof (induction s)
  case Nil
  have "m [] = None" using Nil [of "[]" "[]"] by simp
  then show ?case by simp
next
  case (Cons c cs)
  have here: "m (c # cs) = None" using Cons.prems [of "[]" "c # cs"] by simp
  have "replace_all m cs = cs"
  proof (rule Cons.IH)
    fix a t assume "cs = a @ t"
    then have "c # cs = (c # a) @ t" by simp
    then show "m t = None" by (rule Cons.prems)
  qed
  then show ?case using here by simp
qed

lemma not_includes_suffix:
  "\<not> includes_str s p \<Longrightarrow> s = a @ t \<Longrightarrow> \<not> startsWith t p"
  by (auto simp: includes_str_iff startsWith_iff)

lemma escaped_newline_None: "BACKSLASH \<notin> set t \<Longrightarrow> escaped_newline t = None"
  by (auto simp: escaped_newline_def startsWith_iff)

lemma escaped_return_None: "BACKSLASH \<notin> set t \<Longrightarrow> escaped_return t = None"
  by (auto simp: escaped_return_def startsWith_iff)

lemma crlf_None: "CR \<notin> set t \<Longrightarrow> crlf t = None"
  by (cases t) (auto simp: crlf_def)

lemma broken_arrow_None:
  assumes "\<not> includes_str t (js ''-->'')"
  shows "broken_arrow t = None"
proof -
  have "t = takeWhile is_ws t @ dropWhile is_ws t" by simp
  then have "\<not> startsWith (dropWhile is_ws t) (js ''-->'')"
    using assms not_includes_suffix by blast
  then show ?thesis by (simp add: broken_arrow_def Let_def)
qed

lemma broken_label_None:
  assumes "PIPE \<notin> set t"
  shows "broken_label t = None"
proof (cases t)
  case Nil
  then show ?thesis by (simp add: broken_label_def)
next
  case t: (Cons c t')
  show ?thesis
  proof (cases "dropWhile is_ws t'")
    case Nil
    then show ?thesis
      unfolding t broken_label_def Let_def by (simp del: dropWhile_eq_Nil_conv)
  next
    case (Cons d t2)
    then have "d \<in> set (dropWhile is_ws t')" by simp
    then have "d \<in> set t'" by (rule set_dropWhileD)
    then have "d \<noteq> PIPE" using assms t by auto
    then show ?thesis
      using Cons by (simp add: t broken_label_def Let_def)
  qed
qed

lemma header_not_on_own_line_None:
  assumes "\<forall>c. c \<noteq> LF \<longrightarrow> \<not> startsWith t (c # js ''graph TD'')"
  shows "header_not_on_own_line t = None"
proof (cases t)
  case Nil
  then show ?thesis by (simp add: header_not_on_own_line_def)
next
  case (Cons c rest)
  then have "c \<noteq> LF \<longrightarrow> \<not> startsWith rest (js ''graph TD'')"
    using assms by auto
  then show ?thesis using Cons by (auto simp: header_not_on_own_line_def)
qed

lemma node_end_before_word_None:
  assumes "\<forall>c d. (c = 93 \<or> c = 125) \<and> is_word d \<longrightarrow> \<not> startsWith t [c, d]"
  shows "node_end_before_word t = None"
proof (cases t)
  case Nil
  then show ?thesis by (simp add: node_end_before_word_def)
next
  case (Cons c rest)
  show ?thesis
  proof (cases rest)
    case Nil
    then show ?thesis using Cons by (simp add: node_end_before_word_def)
  next
    case (Cons d rest')
    then have "(c = 93 \<or> c = 125) \<and> is_word d \<longrightarrow> False"
      using assms \<open>t = c # rest\<close> by auto
    then show ?thesis
      using Cons \<open>t = c # rest\<close> by (auto simp: node_end_before_word_def)
  qed
qed

lemma arrow_spacing_None: "\<not> startsWith t (js ''-->'') \<Longrightarrow> arrow_spacing t = None"
  by (simp add: arrow_spacing_def)

lemma normalizeChart_unchanged:
  assumes "BACKSLASH \<notin> set x" and "CR \<notin> set x" and "PIPE \<notin> set x"
    and "\<not> includes_str x (js ''-->'')"
    and "\<forall>c. c \<noteq> LF \<longrightarrow> \<not> includes_str x (c # js ''graph TD'')"
    and "\<forall>c d. (c = 93 \<or> c = 125) \<and> is_word d \<longrightarrow> \<not> includes_str x [c, d]"
  shows "normalizeChart x = x"
proof -
  have 1: "replace_all escaped_newline x = x"
  proof (rule replace_all_no_match)
    fix a t assume "x = a @ t"
    then have "BACKSLASH \<notin> set t" using assms(1) by auto
    then show "escaped_newline t = None" by (rule escaped_newline_None)
  qed
  have 2: "replace_all escaped_return x = x"
  proof (rule replace_all_no_match)
    fix a t assume "x = a @ t"
    then have "BACKSLASH \<notin> set t" using assms(1) by auto
    then show "escaped_return t = None" by (rule escaped_return_None)
  qed
  have 3: "replace_all crlf x = x"
  proof (rule replace_all_no_match)
    fix a t assume "x = a @ t"
    then have "CR \<notin> set t" using assms(2) by auto
    then show "crlf t = None" by (rule crlf_None)
  qed
  have 4: "replace_all broken_arrow x = x"
  proof (rule replace_all_no_match)
    fix a t assume xt: "x = a @ t"
    have "\<not> includes_str t (js ''-->'')"
    proof
      assume "includes_str t (js ''-->'')"
      then obtain b e where "t = b @ js ''-->'' @ e" by (auto simp: includes_str_iff)
      then have "x = (a @ b) @ js ''-->'' @ e" using xt by simp
      then have "includes_str x (js ''-->'')" unfolding includes_str_iff by blast
      then show False using assms(4) by simp
    qed
    then show "broken_arrow t = None" by (rule broken_arrow_None)
  qed
  have 5: "replace_all broken_label x = x"
  proof (rule replace_all_no_match)
    fix a t assume "x = a @ t"
    then have "PIPE \<notin> set t" using assms(3) by auto
    then show "broken_label t = None" by (rule broken_label_None)
  qed
  have 6: "replace_all header_not_on_own_line x = x"
  proof (rule replace_all_no_match)
    fix a t assume xt: "x = a @ t"
    have "\<forall>c. c \<noteq> LF \<longrightarrow> \<not> startsWith t (c # js ''graph TD'')"
      using assms(5) not_includes_suffix [OF _ xt] by blast
    then show "header_not_on_own_line t = None" by (rule header_not_on_own_line_None)
  qed
  have 7: "replace_all node_end_before_word x = x"
  proof (rule replace_all_no_match)
    fix a t assume xt: "x = a @ t"
    have "\<forall>c d. (c = 93 \<or> c = 125) \<and> is_word d \<longrightarrow> \<not> startsWith t [c, d]"
      using assms(6) not_includes_suffix [OF _ xt] by blast
    then show "node_end_before_word t = None" by (rule node_end_before_word_None)
  qed
  have 8: "replace_all arrow_spacing x = x"
  proof (rule replace_all_no_match)
    fix a t assume xt: "x = a @ t"
    have "\<not> startsWith t (js ''-->'')"
      using assms(4) xt by (rule not_includes_suffix)
    then show "arrow_spacing t = None" by (rule arrow_spacing_None)
  qed
  show ?thesis
    unfolding normalizeChart_def by (simp only: 1 2 3 4 5 6 7 8)
qed

lemmas normalize_eval = normalizeChart_def escaped_newline_def escaped_return_def crlf_def
  broken_arrow_def broken_label_def header_not_on_own_line_def node_end_before_word_def
  arrow_spacing_def is_ws_def is_word_def js_def Let_def

lemma normalize_arrow_once: "normalizeChart (js ''A --> B'') = js ''A -->  B''"
  by (simp add: normalize_eval)

lemma normalize_arrow_twice: "normalizeChart (js ''A -->  B'') = js ''A -->   B''"
  by (simp add: normalize_eval)

section \<open>Where a pattern of the normalizer occurs\<close>

lemma matches_somewhere_iff:
  "matches_somewhere m s \<longleftrightarrow> (\<exists>a t. s = a @ t \<and> m t \<noteq> None)"
proof (induction s)
  case Nil
  then show ?case by simp
next
  case (Cons c cs)
  show ?case
  proof
    assume "matches_somewhere m (c # cs)"
    then consider "m (c # cs) \<noteq> None" | "matches_somewhere m cs" by auto
    then show "\<exists>a t. c # cs = a @ t \<and> m t \<noteq> None"
    proof cases
      case 1
      then have "c # cs = [] @ (c # cs) \<and> m (c # cs) \<noteq> None" by simp
      then show ?thesis by blast
    next
      case 2
      then obtain a t where "cs = a @ t" "m t \<noteq> None" using Cons.IH by blast
      then have "c # cs = (c # a) @ t \<and> m t \<noteq> None" by simp
      then show ?thesis by blast
    qed
  next
    assume "\<exists>a t. c # cs = a @ t \<and> m t \<noteq> None"
    then obtain a t where at: "c # cs = a @ t" "m t \<noteq> None" by blast
    show "matches_somewhere m (c # cs)"
    proof (cases a)
      case Nil
      then have "t = c # cs" using at(1) by simp
      with at(2) have "m (c # cs) \<noteq> None" by blast
      then show ?thesis unfolding matches_somewhere.simps by (rule disjI1)
    next
      case (Cons x a')
      then have "cs = a' @ t" using at by simp
      then have "matches_somewhere m cs" using at(2) Cons.IH by blast
      then show ?thesis by simp
    qed
  qed
qed

lemma replace_all_idle:
  assumes "\<not> matches_somewhere m s"
  shows "replace_all m s = s"
proof (rule replace_all_no_match)
  fix a t assume st: "s = a @ t"
  show "m t = None"
  proof (rule ccontr)
    assume "m t \<noteq> None"
    then have "\<exists>a t. s = a @ t \<and> m t \<noteq> None" using st by blast
    then have "matches_somewhere m s" by (simp only: matches_somewhere_iff)
    then show False using assms by simp
  qed
qed

lemma first_seven_idle_normalize:
  assumes "first_seven_idle y"
  shows "normalizeChart y = replace_all arrow_spacing y"
  using assms unfolding first_seven_idle_def normalizeChart_def
  by (simp add: replace_all_idle)

section \<open>The spacing of the arrows\<close>

lemma arrow_spacing_Some:
  "arrow_spacing s \<noteq> None \<longleftrightarrow> (\<exists>d rest. s = js ''-->'' @ d # rest \<and> d \<noteq> LF)"
proof
  assume a: "arrow_spacing s \<noteq> None"
  then have sw: "startsWith s (js ''-->'')"
    by (auto simp: arrow_spacing_def split: if_splits)
  then obtain t where t: "s = js ''-->'' @ t" by (auto simp: startsWith_iff)
  then have "drop 3 s = t" by (simp add: js_def)
  then have "t \<noteq> [] \<and> hd t \<noteq> LF"
    using a sw by (cases t) (auto simp: arrow_spacing_def)
  then show "\<exists>d rest. s = js ''-->'' @ d # rest \<and> d \<noteq> LF"
    using t by (cases t) auto
next
  assume "\<exists>d rest. s = js ''-->'' @ d # rest \<and> d \<noteq> LF"
  then obtain d rest where "s = js ''-->'' @ d # rest" "d \<noteq> LF" by blast
  then show "arrow_spacing s \<noteq> None"
    by (simp add: arrow_spacing_def js_def)
qed

lemma replace_all_arrow_match:
  "d \<noteq> LF \<Longrightarrow> replace_all arrow_spacing (js ''-->'' @ d # rest) =
     js ''--> '' @ d # replace_all arrow_spacing rest"
  by (simp add: arrow_spacing_def js_def)

lemma replace_all_arrow_skip:
  "arrow_spacing (c # cs) = None \<Longrightarrow>
     replace_all arrow_spacing (c # cs) = c # replace_all arrow_spacing cs"
  by simp

lemma spaced_refl: "spaced s s"
  by (induction s) (auto intro: spaced.intros)

lemma spaced_arrow_spacing: "spaced s (replace_all arrow_spacing s)"
proof (induction "length s" arbitrary: s rule: less_induct)
  case less
  show ?case
  proof (cases s)
    case Nil
    then show ?thesis by (simp add: arrow_spacing_def js_def spaced_Nil)
  next
    case (Cons c cs)
    show ?thesis
    proof (cases "arrow_spacing s = None")
      case True
      have "spaced cs (replace_all arrow_spacing cs)"
        using less Cons by simp
      then show ?thesis
        using True Cons by (simp add: spaced_Keep)
    next
      case False
      then obtain d rest where s: "s = js ''-->'' @ d # rest" and d: "d \<noteq> LF"
        using arrow_spacing_Some by blast
      have "spaced rest (replace_all arrow_spacing rest)"
        using less s by (simp add: js_def)
      then have "spaced (45 # 45 # 62 # d # rest) (45 # 45 # 62 # 32 # d # replace_all arrow_spacing rest)"
        by (intro spaced_Keep spaced_Space)
      then show ?thesis
        unfolding s replace_all_arrow_match [OF d] by (simp add: js_def)
    qed
  qed
qed

lemma spaced_length: "spaced s t \<Longrightarrow> length s \<le> length t"
  by (induction rule: spaced.induct) auto

lemma arrow_spacing_longer:
  "matches_somewhere arrow_spacing s \<Longrightarrow> length s < length (replace_all arrow_spacing s)"
proof (induction s)
  case Nil
  then show ?case by (simp add: arrow_spacing_def js_def)
next
  case (Cons c cs)
  show ?case
  proof (cases "arrow_spacing (c # cs) = None")
    case True
    then have "matches_somewhere arrow_spacing cs" using Cons.prems by simp
    then show ?thesis using Cons.IH True by simp
  next
    case False
    then obtain d rest where s: "c # cs = js ''-->'' @ d # rest" and d: "d \<noteq> LF"
      using arrow_spacing_Some by blast
    have "length rest \<le> length (replace_all arrow_spacing rest)"
      using spaced_arrow_spacing spaced_length by blast
    then show ?thesis
      unfolding s replace_all_arrow_match [OF d] by (simp add: js_def)
  qed
qed

lemma arrow_spacing_again:
  "matches_somewhere arrow_spacing s \<Longrightarrow>
     matches_somewhere arrow_spacing (replace_all arrow_spacing s)"
proof (induction s)
  case Nil
  then show ?case by (simp add: arrow_spacing_def js_def)
next
  case (Cons c cs)
  show ?case
  proof (cases "arrow_spacing (c # cs) = None")
    case True
    then have "matches_somewhere arrow_spacing cs" using Cons.prems by simp
    then have "matches_somewhere arrow_spacing (replace_all arrow_spacing cs)"
      by (rule Cons.IH)
    then show ?thesis using True by simp
  next
    case False
    then obtain d rest where s: "c # cs = js ''-->'' @ d # rest" and d: "d \<noteq> LF"
      using arrow_spacing_Some by blast
    have "arrow_spacing (js ''-->'' @ 32 # d # replace_all arrow_spacing rest) \<noteq> None"
      unfolding arrow_spacing_Some by auto
    then show ?thesis
      unfolding s replace_all_arrow_match [OF d] by (simp add: js_def)
  qed
qed

lemma arrow_spacing_fixed_iff:
  "replace_all arrow_spacing s = s \<longleftrightarrow> \<not> matches_somewhere arrow_spacing s"
  using arrow_spacing_longer [of s] replace_all_idle [of arrow_spacing s] by auto

section \<open>Texts with spaces put behind their arrows\<close>

inductive_cases spaced_NilE: "spaced [] t"
inductive_cases spaced_ConsE: "spaced (c # s) t"
inductive_cases spaced_toConsE: "spaced s (c # t)"

lemma not_ws_gt: "\<not> is_ws 62"
  by (simp add: is_ws_def)

lemma spaced_startsWith:
  "spaced s t \<Longrightarrow> \<not> includes_str p [62, 32] \<Longrightarrow> startsWith t p \<Longrightarrow> startsWith s p"
proof (induction arbitrary: p rule: spaced.induct)
  case spaced_Nil
  then show ?case by (cases p) auto
next
  case (spaced_Keep s t c)
  show ?case
  proof (cases p)
    case Nil
    then show ?thesis by simp
  next
    case (Cons x p')
    have sw: "startsWith (c # t) (x # p')" using spaced_Keep.prems(2) Cons by simp
    then have cx: "c = x" and tp: "startsWith t p'" by simp_all
    have "\<not> includes_str (x # p') [62, 32]" using spaced_Keep.prems(1) Cons by simp
    then have "\<not> includes_str p' [62, 32]" by simp
    then have "startsWith s p'" using tp by (rule spaced_Keep.IH)
    then show ?thesis using cx Cons by simp
  qed
next
  case (spaced_Space s t)
  show ?case
  proof (cases p)
    case Nil
    then show ?thesis by simp
  next
    case p: (Cons x p')
    then have x: "x = 62" and rest: "startsWith (32 # t) p'"
      using spaced_Space.prems by auto
    show ?thesis
    proof (cases p')
      case Nil
      then show ?thesis using p x by simp
    next
      case (Cons y p'')
      then have "y = 32" using rest by simp
      then have "startsWith p [62, 32]" using p x Cons by simp
      then have "includes_str p [62, 32]" using p by simp
      then show ?thesis using spaced_Space.prems by simp
    qed
  qed
qed

lemma spaced_takeWhile_ws: "spaced s t \<Longrightarrow> takeWhile is_ws t = takeWhile is_ws s"
  by (induction rule: spaced.induct) (simp_all add: not_ws_gt)

lemma spaced_dropWhile_ws: "spaced s t \<Longrightarrow> spaced (dropWhile is_ws s) (dropWhile is_ws t)"
proof (induction rule: spaced.induct)
  case spaced_Nil
  then show ?case by (simp add: spaced.spaced_Nil)
next
  case (spaced_Keep s t c)
  then show ?case by (cases "is_ws c") (simp_all add: spaced.spaced_Keep)
next
  case (spaced_Space s t)
  then show ?case by (simp add: not_ws_gt spaced.spaced_Space)
qed

lemma spaced_set: "spaced s t \<Longrightarrow> set t \<subseteq> insert 32 (set s)"
  by (induction rule: spaced.induct) auto

lemma spaced_Nil_iff: "spaced s t \<Longrightarrow> (t = [] \<longleftrightarrow> s = [])"
  by (induction rule: spaced.induct) auto

lemma spaced_hd: "spaced s t \<Longrightarrow> s \<noteq> [] \<Longrightarrow> hd t = hd s"
  by (induction rule: spaced.induct) auto

lemma spaced_suffixes:
  "spaced s t \<Longrightarrow> t = a' @ t' \<Longrightarrow>
     \<exists>a u. s = a @ u \<and> (spaced u t' \<or> (\<exists>v. t' = 32 # v \<and> spaced u v \<and> (\<exists>a0. a = a0 @ [62])))"
proof (induction arbitrary: a' t' rule: spaced.induct)
  case spaced_Nil
  then have "t' = []" by simp
  then have "[] = [] @ [] \<and> (spaced [] t' \<or>
      (\<exists>v. t' = 32 # v \<and> spaced [] v \<and> (\<exists>a0. [] = a0 @ [62])))"
    by (simp add: spaced.spaced_Nil)
  then show ?case by (intro exI)
next
  case (spaced_Keep s t c)
  show ?case
  proof (cases a')
    case Nil
    then have "t' = c # t" using spaced_Keep.prems by simp
    then have "spaced (c # s) t'"
      using spaced_Keep.hyps by (simp add: spaced.spaced_Keep)
    then have "c # s = [] @ (c # s) \<and> (spaced (c # s) t' \<or>
        (\<exists>v. t' = 32 # v \<and> spaced (c # s) v \<and> (\<exists>a0. [] = a0 @ [62])))"
      by simp
    then show ?thesis by (intro exI)
  next
    case (Cons x a'')
    then have "t = a'' @ t'" using spaced_Keep.prems by simp
    from spaced_Keep.IH [OF this] obtain a u where au: "s = a @ u"
      and d: "spaced u t' \<or> (\<exists>v. t' = 32 # v \<and> spaced u v \<and> (\<exists>a0. a = a0 @ [62]))"
      by (elim exE conjE)
    have d': "spaced u t' \<or> (\<exists>v. t' = 32 # v \<and> spaced u v \<and> (\<exists>a0. c # a = a0 @ [62]))"
      using d
    proof
      assume "spaced u t'"
      then show ?thesis by (rule disjI1)
    next
      assume "\<exists>v. t' = 32 # v \<and> spaced u v \<and> (\<exists>a0. a = a0 @ [62])"
      then obtain v a0 where v: "t' = 32 # v" "spaced u v" and a0: "a = a0 @ [62]"
        by (elim exE conjE)
      have "c # a = (c # a0) @ [62]" using a0 by simp
      then have "\<exists>a0. c # a = a0 @ [62]" by (rule exI)
      then show ?thesis using v by simp
    qed
    have "c # s = (c # a) @ u" using au by simp
    then have "c # s = (c # a) @ u \<and> (spaced u t' \<or>
        (\<exists>v. t' = 32 # v \<and> spaced u v \<and> (\<exists>a0. c # a = a0 @ [62])))"
      using d' by (rule conjI)
    then show ?thesis by (intro exI)
  qed
next
  case (spaced_Space s t)
  show ?case
  proof (cases a')
    case Nil
    then have "t' = 62 # 32 # t" using spaced_Space.prems by simp
    then have "spaced (62 # s) t'"
      using spaced_Space.hyps by (simp add: spaced.spaced_Space)
    then have "62 # s = [] @ (62 # s) \<and> (spaced (62 # s) t' \<or>
        (\<exists>v. t' = 32 # v \<and> spaced (62 # s) v \<and> (\<exists>a0. [] = a0 @ [62])))"
      by simp
    then show ?thesis by (intro exI)
  next
    case a1: (Cons x a'')
    show ?thesis
    proof (cases a'')
      case Nil
      then have t': "t' = 32 # t" using a1 spaced_Space.prems by simp
      have "[62] = [] @ [62::nat]" by simp
      then have "\<exists>a0. [62] = a0 @ [62::nat]" by (rule exI)
      then have "\<exists>v. t' = 32 # v \<and> spaced s v \<and> (\<exists>a0. [62] = a0 @ [62::nat])"
        using t' spaced_Space.hyps by simp
      then have "62 # s = [62] @ s \<and> (spaced s t' \<or>
          (\<exists>v. t' = 32 # v \<and> spaced s v \<and> (\<exists>a0. [62] = a0 @ [62::nat])))"
        by simp
      then show ?thesis by (intro exI)
    next
      case (Cons x2 a3)
      then have "t = a3 @ t'" using a1 spaced_Space.prems by simp
      from spaced_Space.IH [OF this] obtain a u where au: "s = a @ u"
        and d: "spaced u t' \<or> (\<exists>v. t' = 32 # v \<and> spaced u v \<and> (\<exists>a0. a = a0 @ [62]))"
        by (elim exE conjE)
      have d': "spaced u t' \<or> (\<exists>v. t' = 32 # v \<and> spaced u v \<and> (\<exists>a0. 62 # a = a0 @ [62]))"
        using d
      proof
        assume "spaced u t'"
        then show ?thesis by (rule disjI1)
      next
        assume "\<exists>v. t' = 32 # v \<and> spaced u v \<and> (\<exists>a0. a = a0 @ [62])"
        then obtain v a0 where v: "t' = 32 # v" "spaced u v" and a0: "a = a0 @ [62]"
          by (elim exE conjE)
        have "62 # a = (62 # a0) @ [62]" using a0 by simp
        then have "\<exists>a0. 62 # a = a0 @ [62]" by (rule exI)
        then show ?thesis using v by simp
      qed
      have "62 # s = (62 # a) @ u" using au by simp
      then have "62 # s = (62 # a) @ u \<and> (spaced u t' \<or>
          (\<exists>v. t' = 32 # v \<and> spaced u v \<and> (\<exists>a0. 62 # a = a0 @ [62])))"
        using d' by (rule conjI)
      then show ?thesis by (intro exI)
    qed
  qed
qed

lemma spaced_matches:
  assumes "spaced s t" and "matches_somewhere m t"
    and L1: "\<And>u v. spaced u v \<Longrightarrow> m v \<noteq> None \<Longrightarrow> m u \<noteq> None"
    and L2: "\<And>u v. spaced u v \<Longrightarrow> m (32 # v) \<noteq> None \<Longrightarrow> m u \<noteq> None \<or> m (62 # u) \<noteq> None"
  shows "matches_somewhere m s"
proof -
  from assms(2) obtain a' t' where t: "t = a' @ t'" and m: "m t' \<noteq> None"
    unfolding matches_somewhere_iff by (elim exE conjE)
  from spaced_suffixes [OF assms(1) t] obtain a u where s: "s = a @ u"
    and d: "spaced u t' \<or> (\<exists>v. t' = 32 # v \<and> spaced u v \<and> (\<exists>a0. a = a0 @ [62]))"
    by (elim exE conjE)
  from d show ?thesis
  proof
    assume "spaced u t'"
    then have "m u \<noteq> None" using m by (rule L1)
    then have "s = a @ u \<and> m u \<noteq> None" using s by (intro conjI)
    then show ?thesis unfolding matches_somewhere_iff by (intro exI)
  next
    assume "\<exists>v. t' = 32 # v \<and> spaced u v \<and> (\<exists>a0. a = a0 @ [62])"
    then obtain v a0 where v: "t' = 32 # v" "spaced u v" and a: "a = a0 @ [62]"
      by (elim exE conjE)
    have "m u \<noteq> None \<or> m (62 # u) \<noteq> None"
      using v(2) m unfolding v(1) by (rule L2)
    then show ?thesis
    proof
      assume "m u \<noteq> None"
      then have "s = a @ u \<and> m u \<noteq> None" using s by (intro conjI)
      then show ?thesis unfolding matches_somewhere_iff by (intro exI)
    next
      assume "m (62 # u) \<noteq> None"
      moreover have "s = a0 @ (62 # u)" using s a by simp
      ultimately have "s = a0 @ (62 # u) \<and> m (62 # u) \<noteq> None" by (intro conjI)
      then show ?thesis unfolding matches_somewhere_iff by (intro exI)
    qed
  qed
qed

section \<open>Spacing the arrows brings none of the other patterns about\<close>

lemma escaped_newline_Some: "escaped_newline s \<noteq> None \<longleftrightarrow> startsWith s [BACKSLASH, 110]"
  by (simp add: escaped_newline_def)

lemma escaped_return_Some: "escaped_return s \<noteq> None \<longleftrightarrow> startsWith s [BACKSLASH, 114]"
  by (simp add: escaped_return_def)

lemma crlf_Some: "crlf s \<noteq> None \<longleftrightarrow> startsWith s [CR]"
  by (cases s) (simp_all add: crlf_def)

lemma broken_arrow_Some:
  "broken_arrow s \<noteq> None \<longleftrightarrow>
     startsWith (dropWhile is_ws s) (js ''-->'') \<and>
     LF \<in> set (takeWhile is_ws (drop 3 (dropWhile is_ws s)))"
  by (simp add: broken_arrow_def Let_def)

lemma broken_label_Some:
  "broken_label s \<noteq> None \<longleftrightarrow>
     (\<exists>b t2. s = LF # b \<and> dropWhile is_ws b = PIPE # t2 \<and> t2 \<noteq> [] \<and> hd t2 \<noteq> PIPE \<and>
        PIPE \<in> set t2)"
proof (cases s)
  case Nil
  then show ?thesis by (simp add: broken_label_def)
next
  case s: (Cons c b)
  show ?thesis
  proof (cases "c = LF")
    case False
    then show ?thesis using s by (simp add: broken_label_def)
  next
    case lf: True
    show ?thesis
    proof (cases "dropWhile is_ws b")
      case Nil
      then show ?thesis
        unfolding s broken_label_def Let_def by (simp del: dropWhile_eq_Nil_conv)
    next
      case dw: (Cons d t2)
      show ?thesis
      proof (cases "d = PIPE")
        case False
        then show ?thesis using dw by (simp add: s broken_label_def Let_def)
      next
        case pipe: True
        have tw: "takeWhile (\<lambda>x. x \<noteq> PIPE) t2 \<noteq> [] \<longleftrightarrow> t2 \<noteq> [] \<and> hd t2 \<noteq> PIPE"
          by (cases t2) auto
        have dwp: "dropWhile (\<lambda>x. x \<noteq> PIPE) t2 \<noteq> [] \<longleftrightarrow> PIPE \<in> set t2"
          by (auto simp: dropWhile_eq_Nil_conv)
        have "broken_label s \<noteq> None \<longleftrightarrow>
            takeWhile (\<lambda>x. x \<noteq> PIPE) t2 \<noteq> [] \<and> dropWhile (\<lambda>x. x \<noteq> PIPE) t2 \<noteq> []"
          using dw pipe lf
          by (cases "dropWhile (\<lambda>x. x \<noteq> PIPE) t2")
            (simp_all add: s broken_label_def Let_def del: dropWhile_eq_Nil_conv)
        then show ?thesis
          unfolding tw dwp using dw pipe lf s by auto
      qed
    qed
  qed
qed

lemma header_not_on_own_line_Some:
  "header_not_on_own_line s \<noteq> None \<longleftrightarrow>
     (\<exists>c rest. s = c # rest \<and> c \<noteq> LF \<and> startsWith rest (js ''graph TD''))"
  by (cases s) (simp_all add: header_not_on_own_line_def)

lemma node_end_before_word_Some:
  "node_end_before_word s \<noteq> None \<longleftrightarrow>
     (\<exists>c d. startsWith s [c, d] \<and> (c = 93 \<or> c = 125) \<and> is_word d)"
proof (cases s)
  case Nil
  then show ?thesis by (simp add: node_end_before_word_def)
next
  case s: (Cons c rest)
  show ?thesis
  proof (cases rest)
    case Nil
    then show ?thesis using s by (simp add: node_end_before_word_def)
  next
    case (Cons d rest')
    then show ?thesis using s by (auto simp: node_end_before_word_def)
  qed
qed

lemma pair_without_gt_space: "c \<noteq> 62 \<Longrightarrow> \<not> includes_str [c, d] [62, 32]"
  by simp

lemma spaced_escaped_newline:
  assumes "spaced s t" and "matches_somewhere escaped_newline t"
  shows "matches_somewhere escaped_newline s"
  using assms
proof (rule spaced_matches)
  fix u v assume uv: "spaced u v"
  show "escaped_newline v \<noteq> None \<Longrightarrow> escaped_newline u \<noteq> None"
    unfolding escaped_newline_Some
    using spaced_startsWith [OF uv pair_without_gt_space] by simp
  show "escaped_newline (32 # v) \<noteq> None \<Longrightarrow>
      escaped_newline u \<noteq> None \<or> escaped_newline (62 # u) \<noteq> None"
    unfolding escaped_newline_Some by simp
qed

lemma spaced_escaped_return:
  assumes "spaced s t" and "matches_somewhere escaped_return t"
  shows "matches_somewhere escaped_return s"
  using assms
proof (rule spaced_matches)
  fix u v assume uv: "spaced u v"
  show "escaped_return v \<noteq> None \<Longrightarrow> escaped_return u \<noteq> None"
    unfolding escaped_return_Some
    using spaced_startsWith [OF uv pair_without_gt_space] by simp
  show "escaped_return (32 # v) \<noteq> None \<Longrightarrow>
      escaped_return u \<noteq> None \<or> escaped_return (62 # u) \<noteq> None"
    unfolding escaped_return_Some by simp
qed

lemma spaced_crlf:
  assumes "spaced s t" and "matches_somewhere crlf t"
  shows "matches_somewhere crlf s"
  using assms
proof (rule spaced_matches)
  fix u v assume uv: "spaced u v"
  have "\<not> includes_str [CR] [62, 32]" by simp
  then show "crlf v \<noteq> None \<Longrightarrow> crlf u \<noteq> None"
    unfolding crlf_Some using spaced_startsWith [OF uv] by blast
  show "crlf (32 # v) \<noteq> None \<Longrightarrow> crlf u \<noteq> None \<or> crlf (62 # u) \<noteq> None"
    unfolding crlf_Some by simp
qed

lemma spaced_behind_arrow:
  assumes "spaced (js ''-->'' @ u) (js ''-->'' @ v)"
  shows "takeWhile is_ws v = takeWhile is_ws u \<or> takeWhile is_ws v = 32 # takeWhile is_ws u"
proof -
  have "spaced (45 # 45 # 62 # u) (45 # 45 # 62 # v)"
    using assms by (simp add: js_def)
  then have "spaced (45 # 62 # u) (45 # 62 # v)"
    by (auto elim: spaced_ConsE)
  then have "spaced (62 # u) (62 # v)"
    by (auto elim: spaced_ConsE)
  then have "spaced u v \<or> (\<exists>w. v = 32 # w \<and> spaced u w)"
    by (auto elim: spaced_ConsE)
  then show ?thesis
  proof
    assume "spaced u v"
    then show ?thesis by (simp add: spaced_takeWhile_ws)
  next
    assume "\<exists>w. v = 32 # w \<and> spaced u w"
    then obtain w where "v = 32 # w" "spaced u w" by blast
    then have "takeWhile is_ws v = 32 # takeWhile is_ws u"
      by (simp add: spaced_takeWhile_ws is_ws_def)
    then show ?thesis by (rule disjI2)
  qed
qed

lemma spaced_broken_arrow_here:
  assumes uv: "spaced u v" and m: "broken_arrow v \<noteq> None"
  shows "broken_arrow u \<noteq> None"
proof -
  have d: "spaced (dropWhile is_ws u) (dropWhile is_ws v)"
    using uv by (rule spaced_dropWhile_ws)
  from m have sv: "startsWith (dropWhile is_ws v) (js ''-->'')"
    and lf: "LF \<in> set (takeWhile is_ws (drop 3 (dropWhile is_ws v)))"
    unfolding broken_arrow_Some by simp_all
  have "\<not> includes_str (js ''-->'') [62, 32]" by (simp add: js_def)
  then have su: "startsWith (dropWhile is_ws u) (js ''-->'')"
    using sv by (rule spaced_startsWith [OF d])
  from sv obtain v3 where v3: "dropWhile is_ws v = js ''-->'' @ v3"
    unfolding startsWith_iff by blast
  from su obtain u3 where u3: "dropWhile is_ws u = js ''-->'' @ u3"
    unfolding startsWith_iff by blast
  have "takeWhile is_ws v3 = takeWhile is_ws u3 \<or> takeWhile is_ws v3 = 32 # takeWhile is_ws u3"
    using d unfolding u3 v3 by (rule spaced_behind_arrow)
  moreover have "LF \<in> set (takeWhile is_ws v3)"
    using lf unfolding v3 by (simp add: js_def)
  ultimately have "LF \<in> set (takeWhile is_ws u3)" by auto
  then have "LF \<in> set (takeWhile is_ws (drop 3 (dropWhile is_ws u)))"
    unfolding u3 by (simp add: js_def)
  then show ?thesis unfolding broken_arrow_Some using su by simp
qed

lemma spaced_broken_arrow:
  assumes "spaced s t" and "matches_somewhere broken_arrow t"
  shows "matches_somewhere broken_arrow s"
  using assms
proof (rule spaced_matches)
  fix u v assume uv: "spaced u v"
  show "broken_arrow v \<noteq> None \<Longrightarrow> broken_arrow u \<noteq> None"
    using uv by (rule spaced_broken_arrow_here)
  assume "broken_arrow (32 # v) \<noteq> None"
  then have "broken_arrow v \<noteq> None"
    unfolding broken_arrow_Some by (simp add: is_ws_def)
  then have "broken_arrow u \<noteq> None"
    using uv by (rule spaced_broken_arrow_here [rotated])
  then show "broken_arrow u \<noteq> None \<or> broken_arrow (62 # u) \<noteq> None" by (rule disjI1)
qed

lemma spaced_broken_label:
  assumes "spaced s t" and "matches_somewhere broken_label t"
  shows "matches_somewhere broken_label s"
  using assms
proof (rule spaced_matches)
  fix u v assume uv: "spaced u v"
  show "broken_label (32 # v) \<noteq> None \<Longrightarrow>
      broken_label u \<noteq> None \<or> broken_label (62 # u) \<noteq> None"
    unfolding broken_label_Some by simp
  assume "broken_label v \<noteq> None"
  then obtain b t2 where v: "v = LF # b" and dw: "dropWhile is_ws b = PIPE # t2"
    and t2: "t2 \<noteq> []" "hd t2 \<noteq> PIPE" "PIPE \<in> set t2"
    unfolding broken_label_Some by blast
  from uv v obtain b' where u: "u = LF # b'" and bb: "spaced b' b"
    by (auto elim: spaced_toConsE)
  have "spaced (dropWhile is_ws b') (PIPE # t2)"
    using spaced_dropWhile_ws [OF bb] dw by simp
  then obtain u2 where dw': "dropWhile is_ws b' = PIPE # u2" and tt: "spaced u2 t2"
    by (auto elim: spaced_toConsE)
  have "u2 \<noteq> []" using tt t2(1) spaced_Nil_iff by blast
  moreover from this have "hd u2 \<noteq> PIPE" using tt t2(2) spaced_hd by fastforce
  moreover have "PIPE \<in> set u2" using spaced_set [OF tt] t2(3) by auto
  ultimately show "broken_label u \<noteq> None"
    unfolding broken_label_Some using u dw' by blast
qed

lemma spaced_header_not_on_own_line:
  assumes "spaced s t" and "matches_somewhere header_not_on_own_line t"
  shows "matches_somewhere header_not_on_own_line s"
  using assms
proof (rule spaced_matches)
  fix u v assume uv: "spaced u v"
  have free: "\<not> includes_str (js ''graph TD'') [62, 32]" by (simp add: js_def)
  {
    assume "header_not_on_own_line (32 # v) \<noteq> None"
    then have "startsWith v (js ''graph TD'')"
      unfolding header_not_on_own_line_Some by simp
    then have "startsWith u (js ''graph TD'')"
      using free by (intro spaced_startsWith [OF uv])
    then have "header_not_on_own_line (62 # u) \<noteq> None"
      unfolding header_not_on_own_line_Some by simp
    then show "header_not_on_own_line u \<noteq> None \<or> header_not_on_own_line (62 # u) \<noteq> None"
      by (rule disjI2)
  }
  assume "header_not_on_own_line v \<noteq> None"
  then obtain c rest where v: "v = c # rest" and c: "c \<noteq> LF"
    and g: "startsWith rest (js ''graph TD'')"
    unfolding header_not_on_own_line_Some by blast
  from uv v obtain u' where u: "u = c # u'"
    and d: "spaced u' rest \<or> (\<exists>w. rest = 32 # w)"
    by (auto elim: spaced_toConsE)
  have "\<not> (\<exists>w. rest = 32 # w)" using g by (auto simp: js_def)
  then have "spaced u' rest" using d by simp
  then have "startsWith u' (js ''graph TD'')" using free g by (rule spaced_startsWith)
  then show "header_not_on_own_line u \<noteq> None"
    unfolding header_not_on_own_line_Some using u c by simp
qed

lemma spaced_node_end_before_word:
  assumes "spaced s t" and "matches_somewhere node_end_before_word t"
  shows "matches_somewhere node_end_before_word s"
  using assms
proof (rule spaced_matches)
  fix u v assume uv: "spaced u v"
  show "node_end_before_word (32 # v) \<noteq> None \<Longrightarrow>
      node_end_before_word u \<noteq> None \<or> node_end_before_word (62 # u) \<noteq> None"
    unfolding node_end_before_word_Some by auto
  assume "node_end_before_word v \<noteq> None"
  then obtain c d where sw: "startsWith v [c, d]" and c: "c = 93 \<or> c = 125" and d: "is_word d"
    unfolding node_end_before_word_Some by blast
  have "c \<noteq> 62" using c by auto
  then have "\<not> includes_str [c, d] [62, 32]" by (rule pair_without_gt_space)
  then have "startsWith u [c, d]" using sw by (rule spaced_startsWith [OF uv])
  then show "node_end_before_word u \<noteq> None"
    unfolding node_end_before_word_Some using c d by blast
qed

lemma first_seven_idle_spaced:
  assumes "spaced s t" and "first_seven_idle s"
  shows "first_seven_idle t"
  using assms(2) unfolding first_seven_idle_def
  using spaced_escaped_newline [OF assms(1)] spaced_escaped_return [OF assms(1)]
    spaced_crlf [OF assms(1)] spaced_broken_arrow [OF assms(1)] spaced_broken_label [OF assms(1)]
    spaced_header_not_on_own_line [OF assms(1)] spaced_node_end_before_word [OF assms(1)]
  by blast

section \<open>When the normalizer is idempotent\<close>

lemma arrow_followed_iff:
  assumes "first_seven_idle y"
  shows "matches_somewhere arrow_spacing y \<longleftrightarrow> (\<exists>a d b. y = a @ js ''-->'' @ d # b)"
proof
  assume "matches_somewhere arrow_spacing y"
  then obtain a t where "y = a @ t" and "arrow_spacing t \<noteq> None"
    unfolding matches_somewhere_iff by (elim exE conjE)
  then obtain d rest where "y = a @ js ''-->'' @ d # rest"
    unfolding arrow_spacing_Some by auto
  then show "\<exists>a d b. y = a @ js ''-->'' @ d # b" by (intro exI)
next
  assume "\<exists>a d b. y = a @ js ''-->'' @ d # b"
  then obtain a d b where y: "y = a @ js ''-->'' @ d # b" by (elim exE)
  have "d \<noteq> LF"
  proof
    assume "d = LF"
    then have "broken_arrow (js ''-->'' @ d # b) \<noteq> None"
      unfolding broken_arrow_Some by (simp add: js_def is_ws_def)
    then have "y = a @ (js ''-->'' @ d # b) \<and> broken_arrow (js ''-->'' @ d # b) \<noteq> None"
      using y by (intro conjI)
    then have "matches_somewhere broken_arrow y"
      unfolding matches_somewhere_iff by (intro exI)
    then show False using assms by (simp add: first_seven_idle_def)
  qed
  then have "arrow_spacing (js ''-->'' @ d # b) \<noteq> None"
    unfolding arrow_spacing_Some by blast
  then have "y = a @ (js ''-->'' @ d # b) \<and> arrow_spacing (js ''-->'' @ d # b) \<noteq> None"
    using y by (intro conjI)
  then show "matches_somewhere arrow_spacing y"
    unfolding matches_somewhere_iff by (intro exI)
qed

lemma normalize_idle_fixed_iff:
  assumes "first_seven_idle y"
  shows "normalizeChart y = y \<longleftrightarrow> \<not> matches_somewhere arrow_spacing y"
  unfolding first_seven_idle_normalize [OF assms] by (rule arrow_spacing_fixed_iff)

lemma normalize_idle_closed:
  assumes "first_seven_idle y"
  shows "first_seven_idle (normalizeChart y)"
  unfolding first_seven_idle_normalize [OF assms]
  using spaced_arrow_spacing assms by (rule first_seven_idle_spaced)

lemma normalize_idle_twice_iff:
  assumes "first_seven_idle y"
  shows "normalizeChart (normalizeChart y) = normalizeChart y \<longleftrightarrow>
    \<not> matches_somewhere arrow_spacing y"
proof (cases "matches_somewhere arrow_spacing y")
  case True
  then have "matches_somewhere arrow_spacing (normalizeChart y)"
    unfolding first_seven_idle_normalize [OF assms] by (rule arrow_spacing_again)
  then have "normalizeChart (normalizeChart y) \<noteq> normalizeChart y"
    using normalize_idle_fixed_iff [OF normalize_idle_closed [OF assms]] by simp
  then show ?thesis using True by simp
next
  case False
  then have "normalizeChart y = y"
    using normalize_idle_fixed_iff [OF assms] by simp
  then show ?thesis using False by simp
qed

lemma normalize_idle_iterate:
  assumes "first_seven_idle y" and "matches_somewhere arrow_spacing y"
  shows "first_seven_idle ((normalizeChart ^^ n) y) \<and>
    matches_somewhere arrow_spacing ((normalizeChart ^^ n) y)"
proof (induction n)
  case 0
  show ?case using assms by simp
next
  case (Suc n)
  let ?z = "(normalizeChart ^^ n) y"
  have idle: "first_seven_idle ?z" and m: "matches_somewhere arrow_spacing ?z"
    using Suc.IH by blast+
  have 1: "first_seven_idle (normalizeChart ?z)"
    using idle by (rule normalize_idle_closed)
  have 2: "matches_somewhere arrow_spacing (normalizeChart ?z)"
    unfolding first_seven_idle_normalize [OF idle] using m by (rule arrow_spacing_again)
  show ?case using 1 2 by simp
qed

lemma normalize_idle_grows:
  assumes "first_seven_idle y" and "matches_somewhere arrow_spacing y"
  shows "length ((normalizeChart ^^ n) y) < length ((normalizeChart ^^ Suc n) y)"
proof -
  let ?z = "(normalizeChart ^^ n) y"
  have idle: "first_seven_idle ?z" and m: "matches_somewhere arrow_spacing ?z"
    using normalize_idle_iterate [OF assms] by blast+
  have "length ?z < length (normalizeChart ?z)"
    unfolding first_seven_idle_normalize [OF idle] using m by (rule arrow_spacing_longer)
  then show ?thesis by simp
qed

lemmas idle_eval = first_seven_idle_def escaped_newline_def escaped_return_def crlf_def
  broken_arrow_def broken_label_def header_not_on_own_line_def node_end_before_word_def
  arrow_spacing_def is_ws_def is_word_def js_def Let_def

lemma idle_edge: "first_seven_idle (js ''A --> B'') \<and> matches_somewhere arrow_spacing (js ''A --> B'')"
  by (simp add: idle_eval)

lemma normalize_bracket: "normalizeChart (js ''a]b'') = js ''a]'' @ LF # js ''b''"
  by (simp add: normalize_eval)

lemma idle_bracket:
  "first_seven_idle (js ''a]'' @ LF # js ''b'') \<and>
   \<not> matches_somewhere arrow_spacing (js ''a]'' @ LF # js ''b'')"
  by (simp add: idle_eval)

lemma normalize_header: "normalizeChart (js ''xgraph TD'') = js ''x'' @ LF # js ''graph TD''"
  by (simp add: normalize_eval)

lemma idle_header:
  "first_seven_idle (js ''x'' @ LF # js ''graph TD'') \<and>
   \<not> matches_somewhere arrow_spacing (js ''x'' @ LF # js ''graph TD'')"
  by (simp add: idle_eval)

lemma normalize_crlf: "normalizeChart (js ''a'' @ CR # LF # js ''b'') = js ''a'' @ LF # js ''b''"
  by (simp add: normalize_eval)

lemma idle_crlf:
  "first_seven_idle (js ''a'' @ LF # js ''b'') \<and>
   \<not> matches_somewhere arrow_spacing (js ''a'' @ LF # js ''b'')"
  by (simp add: idle_eval)

lemma idle_last_arrow:
  "first_seven_idle (js ''A-->'') \<and> \<not> matches_somewhere arrow_spacing (js ''A-->'')"
  by (simp add: idle_eval)

lemma idle_bar:
  "first_seven_idle (js ''A[x|y]'') \<and> \<not> matches_somewhere arrow_spacing (js ''A[x|y]'')"
  by (simp add: idle_eval)

text \<open>
  Claim C5, as the code has it. Take the charts in which none of the first seven patterns of
  the normalizer occurs (the written-out \<open>\n\<close> and \<open>\r\<close>, the carriage return, the arrow and the
  edge label broken across a line break, \<open>graph TD\<close> behind a code unit other than a line feed,
  \<open>]\<close> or \<open>}\<close> in front of a letter, digit or underscore). For every input whose first pass
  gives such a chart, applying the normalizer twice yields the same output as applying it once
  exactly when no arrow \<open>-->\<close> in the output of the first pass is followed by a code unit. On
  such a chart a pass does nothing but space the arrows, and again gives such a chart; it
  leaves the chart unchanged, and the normalizer is idempotent at it, exactly when no arrow in
  it is followed by a code unit. When an arrow is followed by one, every pass makes the chart
  longer, so no number of passes reaches a chart that stays.
\<close>

theorem normalizeChart_idempotent_iff:
  "(first_seven_idle (normalizeChart x) \<longrightarrow>
      (normalizeChart (normalizeChart x) = normalizeChart x \<longleftrightarrow>
       \<not> (\<exists>a d b. normalizeChart x = a @ js ''-->'' @ d # b))) \<and>
   (first_seven_idle y \<longrightarrow>
      normalizeChart y = replace_all arrow_spacing y \<and>
      first_seven_idle (normalizeChart y) \<and>
      (matches_somewhere arrow_spacing y \<longleftrightarrow> (\<exists>a d b. y = a @ js ''-->'' @ d # b)) \<and>
      (normalizeChart y = y \<longleftrightarrow> \<not> (\<exists>a d b. y = a @ js ''-->'' @ d # b)) \<and>
      (normalizeChart (normalizeChart y) = normalizeChart y \<longleftrightarrow>
         \<not> (\<exists>a d b. y = a @ js ''-->'' @ d # b)) \<and>
      ((\<exists>a d b. y = a @ js ''-->'' @ d # b) \<longrightarrow>
         (\<exists>a d b. normalizeChart y = a @ js ''-->'' @ d # b) \<and>
         (\<forall>n. length ((normalizeChart ^^ n) y) < length ((normalizeChart ^^ Suc n) y))))"
proof (intro conjI impI)
  assume idle: "first_seven_idle (normalizeChart x)"
  show "normalizeChart (normalizeChart x) = normalizeChart x \<longleftrightarrow>
       \<not> (\<exists>a d b. normalizeChart x = a @ js ''-->'' @ d # b)"
    unfolding normalize_idle_fixed_iff [OF idle] arrow_followed_iff [OF idle] by (rule refl)
next
  assume idle: "first_seven_idle y"
  show "normalizeChart y = replace_all arrow_spacing y"
    using idle by (rule first_seven_idle_normalize)
  show "first_seven_idle (normalizeChart y)"
    using idle by (rule normalize_idle_closed)
  show "matches_somewhere arrow_spacing y \<longleftrightarrow> (\<exists>a d b. y = a @ js ''-->'' @ d # b)"
    using idle by (rule arrow_followed_iff)
  show "normalizeChart y = y \<longleftrightarrow> \<not> (\<exists>a d b. y = a @ js ''-->'' @ d # b)"
    unfolding normalize_idle_fixed_iff [OF idle] arrow_followed_iff [OF idle] by (rule refl)
  show "normalizeChart (normalizeChart y) = normalizeChart y \<longleftrightarrow>
         \<not> (\<exists>a d b. y = a @ js ''-->'' @ d # b)"
    unfolding normalize_idle_twice_iff [OF idle] arrow_followed_iff [OF idle] by (rule refl)
next
  assume idle: "first_seven_idle y" and ar: "\<exists>a d b. y = a @ js ''-->'' @ d # b"
  have m: "matches_somewhere arrow_spacing y"
    using ar unfolding arrow_followed_iff [OF idle] .
  have "matches_somewhere arrow_spacing (normalizeChart y)"
    unfolding first_seven_idle_normalize [OF idle] using m by (rule arrow_spacing_again)
  then show "\<exists>a d b. normalizeChart y = a @ js ''-->'' @ d # b"
    unfolding arrow_followed_iff [OF normalize_idle_closed [OF idle]] .
  show "\<forall>n. length ((normalizeChart ^^ n) y) < length ((normalizeChart ^^ Suc n) y)"
    using normalize_idle_grows [OF idle m] by blast
qed

theorem normalizeChart_idempotent_iff_witness:
  "normalizeChart (normalizeChart (js ''a]b'')) = normalizeChart (js ''a]b'') \<and>
   normalizeChart (normalizeChart (js ''xgraph TD'')) = normalizeChart (js ''xgraph TD'') \<and>
   normalizeChart (normalizeChart (js ''a'' @ CR # LF # js ''b'')) =
     normalizeChart (js ''a'' @ CR # LF # js ''b'') \<and>
   normalizeChart (js ''A-->'') = js ''A-->'' \<and>
   normalizeChart (js ''A[x|y]'') = js ''A[x|y]'' \<and>
   first_seven_idle (normalizeChart (js ''A --> B'')) \<and>
   length (js ''A --> B'') < length (normalizeChart (js ''A --> B'')) \<and>
   normalizeChart (normalizeChart (js ''A --> B'')) \<noteq> normalizeChart (js ''A --> B'')"
proof -
  have twice: "first_seven_idle (normalizeChart x) \<and>
      \<not> matches_somewhere arrow_spacing (normalizeChart x) \<Longrightarrow>
      normalizeChart (normalizeChart x) = normalizeChart x" for x
    using normalizeChart_idempotent_iff [of x "normalizeChart x"] by blast
  have fixed: "first_seven_idle y \<and> \<not> matches_somewhere arrow_spacing y \<Longrightarrow>
      normalizeChart y = y" for y
    using normalizeChart_idempotent_iff [of y y] by blast
  have 1: "normalizeChart (normalizeChart (js ''a]b'')) = normalizeChart (js ''a]b'')"
    by (rule twice) (unfold normalize_bracket, rule idle_bracket)
  have 2: "normalizeChart (normalizeChart (js ''xgraph TD'')) = normalizeChart (js ''xgraph TD'')"
    by (rule twice) (unfold normalize_header, rule idle_header)
  have 3: "normalizeChart (normalizeChart (js ''a'' @ CR # LF # js ''b'')) =
      normalizeChart (js ''a'' @ CR # LF # js ''b'')"
    by (rule twice) (unfold normalize_crlf, rule idle_crlf)
  have 4: "normalizeChart (js ''A-->'') = js ''A-->''"
    using idle_last_arrow by (rule fixed)
  have 5: "normalizeChart (js ''A[x|y]'') = js ''A[x|y]''"
    using idle_bar by (rule fixed)
  have idle: "first_seven_idle (js ''A --> B'')"
    and m: "matches_somewhere arrow_spacing (js ''A --> B'')"
    using idle_edge by blast+
  note t = normalizeChart_idempotent_iff [of "js ''A --> B''" "js ''A --> B''"]
  have 6: "first_seven_idle (normalizeChart (js ''A --> B''))"
    using t idle by blast
  have ar: "\<exists>a d b. js ''A --> B'' = a @ js ''-->'' @ d # b"
    using t idle m by blast
  have "length ((normalizeChart ^^ 0) (js ''A --> B'')) <
      length ((normalizeChart ^^ Suc 0) (js ''A --> B''))"
    using t idle ar by blast
  then have 7: "length (js ''A --> B'') < length (normalizeChart (js ''A --> B''))"
    by simp
  have 8: "normalizeChart (normalizeChart (js ''A --> B'')) \<noteq> normalizeChart (js ''A --> B'')"
    using t idle ar by blast
  show ?thesis using 1 2 3 4 5 6 7 8 by (intro conjI)
qed

text \<open>
  The claim as stated fails for the chart \<open>A --> B\<close>: every pass puts one more space behind
  the arrow, whatever follows it on the line.
\<close>

theorem normalizeChart_not_idempotent:
  "normalizeChart (js ''A --> B'') = js ''A -->  B'' \<and>
   normalizeChart (normalizeChart (js ''A --> B'')) = js ''A -->   B'' \<and>
   normalizeChart (normalizeChart (js ''A --> B'')) \<noteq> normalizeChart (js ''A --> B'')"
  by (simp add: normalize_arrow_once normalize_arrow_twice) (simp add: js_def)

section \<open>The fallback generator in closed form\<close>

lemma add_nodes_closed:
  "add_nodes ps i acc = acc @ concat (map (\<lambda>k. node_line (i + k) (ps ! k)) [0..<length ps])"
proof (induction ps arbitrary: i acc)
  case Nil
  then show ?case by simp
next
  case (Cons p ps)
  have "map (\<lambda>k. node_line (i + k) ((p # ps) ! k)) [0..<length (p # ps)] =
        node_line i p # map (\<lambda>k. node_line (Suc i + k) (ps ! k)) [0..<length ps]"
    by (simp add: upt_conv_Cons map_Suc_upt [symmetric] del: upt_Suc)
  then show ?case
    using Cons.IH [of "i + 1"] by (simp add: node_line_def)
qed

lemma add_connections_closed:
  "add_connections i len acc = acc @ concat (map edge_line [i..<len - 1])"
proof (induction i len acc rule: add_connections.induct)
  case (1 i len acc)
  show ?case
  proof (cases "int i < int len - 1")
    case True
    then have "i < len - 1" by simp
    then have "[i..<len - 1] = i # [i + 1..<len - 1]"
      by (simp add: upt_conv_Cons)
    then show ?thesis
      using True "1.IH" by (simp add: add_connections.simps [of i] edge_line_def)
  next
    case False
    then have "[i..<len - 1] = []" by simp
    then show ?thesis
      using False by (simp add: add_connections.simps [of i])
  qed
qed

lemma generateFallbackFlowchart_closed:
  "generateFallbackFlowchart ps =
     js ''flowchart TD'' @ [LF] @
     concat (map (\<lambda>k. node_line k (ps ! k)) [0..<length ps]) @
     concat (map edge_line [0..<length ps - 1])"
  by (simp add: generateFallbackFlowchart_def add_connections_closed add_nodes_closed)

lemma fallback_startsWith_header:
  "startsWith (generateFallbackFlowchart ps) (js ''flowchart TD'')"
  by (simp add: generateFallbackFlowchart_closed startsWith_iff)

lemma fallback_trim_startsWith_flowchart:
  "startsWith (trim (generateFallbackFlowchart ps)) (js ''flowchart'')"
proof (rule startsWith_trim)
  show "startsWith (generateFallbackFlowchart ps) (js ''flowchart'')"
    by (simp add: generateFallbackFlowchart_closed startsWith_iff js_def)
qed (simp_all add: js_def is_ws_def)

lemma fallback_not_empty: "generateFallbackFlowchart ps \<noteq> []"
  by (simp add: generateFallbackFlowchart_closed js_def)

lemma trim_hello: "trim (js ''hello'') = js ''hello''"
  by (simp add: trim_def js_def is_ws_def)

lemma extractPhrases_hello: "extractPhrases (js ''hello'') = [js ''hello'']"
  by (simp add: extractPhrases_def clauses_def is_clause_sep_def js_def trim_def is_ws_def)

lemma fallback_hello:
  "generateFallbackFlowchart [js ''hello''] = js ''flowchart TD'' @ LF # js ''    A[hello]'' @ [LF]"
  by (simp add: generateFallbackFlowchart_closed node_line_def nodeId_def sanitizeForMermaid_def
      js_def)

lemma hello_rejected:
  "\<not> validateMermaidSyntax (JString (js ''flowchart TD'' @ LF # js ''    A[hello]'' @ [LF]))"
  by (simp add: validateMermaidSyntax_def validate_try_def js_def)

section \<open>The fallback generator and the validator\<close>

lemma trim_indented_node:
  assumes "\<not> is_ws a" and "\<not> is_ws b"
  shows "\<exists>t. trim (js ''    '' @ a # b # x) = a # b # t"
proof -
  have "trim (js ''    '' @ a # b # x) = trim ([a, b] @ x)"
    by (simp add: js_def trim_drop_leading is_ws_def)
  moreover have "\<exists>t. trim ([a, b] @ x) = [a, b] @ t"
    using assms by (intro trim_keeps_prefix) simp_all
  ultimately show ?thesis by auto
qed

lemma first_node_line_counts:
  "line_has_node (js ''    '' @ nodeId 0 # 91 # x)"
proof -
  obtain t where t: "trim (js ''    '' @ nodeId 0 # 91 # x) = nodeId 0 # 91 # t"
    using trim_indented_node [of "nodeId 0" 91 x] by (auto simp: nodeId_def is_ws_def)
  show ?thesis
    unfolding line_has_node_def Let_def t by (simp add: nodeId_def js_def)
qed

lemma fallback_has_node_line:
  assumes "ps \<noteq> []"
  shows "\<exists>l\<in>set (split_lines (generateFallbackFlowchart ps)). line_has_node l"
proof -
  from assms obtain p rest where ps: "ps = p # rest" by (cases ps) auto
  have upt: "[0..<length ps] = 0 # [1..<length ps]"
    using ps by (simp add: upt_conv_Cons del: upt_Suc)
  define tail where "tail = sanitizeForMermaid (ps ! 0) @ js '']'' @ [LF] @
      concat (map (\<lambda>k. node_line k (ps ! k)) [1..<length ps]) @
      concat (map edge_line [0..<length ps - 1])"
  have "generateFallbackFlowchart ps =
      js ''flowchart TD'' @ [LF] @ node_line 0 (ps ! 0) @
      concat (map (\<lambda>k. node_line k (ps ! k)) [1..<length ps]) @
      concat (map edge_line [0..<length ps - 1])"
    unfolding generateFallbackFlowchart_closed upt by simp
  then have doc: "generateFallbackFlowchart ps =
      js ''flowchart TD'' @ LF # (js ''    '' @ nodeId 0 # 91 # tail)"
    by (simp add: node_line_def tail_def js_def)
  have "split_lines (generateFallbackFlowchart ps) =
      js ''flowchart TD'' # split_lines (js ''    '' @ nodeId 0 # 91 # tail)"
    unfolding doc split_lines_def by (rule split_on_append_sep) (simp_all add: js_def)
  moreover have "hd (split_lines (js ''    '' @ nodeId 0 # 91 # tail)) =
      js ''    '' @ nodeId 0 # 91 # takeWhile (\<lambda>c. c \<noteq> LF) tail"
    unfolding split_lines_def hd_split_on by (simp add: js_def nodeId_def)
  moreover have "split_lines (js ''    '' @ nodeId 0 # 91 # tail) \<noteq> []"
    by (simp add: split_lines_def split_on_not_Nil)
  ultimately have "js ''    '' @ nodeId 0 # 91 # takeWhile (\<lambda>c. c \<noteq> LF) tail
      \<in> set (split_lines (generateFallbackFlowchart ps))"
    by (metis hd_in_set list.set_intros(2))
  then show ?thesis using first_node_line_counts by blast
qed

lemma fallback_empty_no_header: "\<not> has_orientation_header (generateFallbackFlowchart [])"
  by (simp add: generateFallbackFlowchart_closed has_orientation_header_def js_def)

lemma fallback_validated_iff:
  "validateMermaidSyntax (JString (generateFallbackFlowchart ps)) \<longleftrightarrow>
     ps \<noteq> [] \<and> has_orientation_header (generateFallbackFlowchart ps)"
proof (cases "ps = []")
  case True
  then show ?thesis
    using fallback_empty_no_header by (simp add: validate_iff has_orientation_header_def)
next
  case False
  then show ?thesis
    using fallback_has_node_line [OF False] by (simp add: validate_iff has_orientation_header_def)
qed

text \<open>
  Claim C2, as the code has it. The document of the fallback generator starts with the header
  \<open>flowchart TD\<close>, which is not one of the two declarations \<open>validateMermaidSyntax\<close> looks
  for. So the validator accepts the document exactly when there is at least one phrase and
  the text \<open>graph TD\<close> or \<open>graph LR\<close> occurs in the document all the same.
\<close>

theorem fallback_validated_when:
  "startsWith (generateFallbackFlowchart ps) (js ''flowchart TD'') \<and>
   (validateMermaidSyntax (JString (generateFallbackFlowchart ps)) \<longleftrightarrow>
      ps \<noteq> [] \<and> has_orientation_header (generateFallbackFlowchart ps))"
  using fallback_startsWith_header fallback_validated_iff by simp

lemma fallback_graph_phrase:
  "generateFallbackFlowchart [js ''graph TD''] = js ''flowchart TD'' @ LF # js ''    A[graph TD]'' @ [LF]"
  by (simp add: generateFallbackFlowchart_closed node_line_def nodeId_def sanitizeForMermaid_def
      js_def)

theorem fallback_validated_when_witness:
  "validateMermaidSyntax (JString (generateFallbackFlowchart [js ''graph TD''])) \<and>
   \<not> validateMermaidSyntax (JString (generateFallbackFlowchart []))"
proof -
  have "has_orientation_header (generateFallbackFlowchart [js ''graph TD''])"
    unfolding fallback_graph_phrase by (simp add: has_orientation_header_def js_def)
  then show ?thesis
    using fallback_validated_when [of "[js ''graph TD'']"] fallback_validated_when [of "[]"]
    by simp
qed

text \<open>
  The claim as stated fails for the one phrase \<open>hello\<close>: the document is
  \<open>flowchart TD\<close>, \<open>    A[hello]\<close>, and the validator rejects it.
\<close>

theorem fallback_rejected:
  "generateFallbackFlowchart [js ''hello''] = js ''flowchart TD'' @ LF # js ''    A[hello]'' @ [LF] \<and>
   validateMermaidSyntax (JString (generateFallbackFlowchart [js ''hello''])) = False"
  using hello_rejected by (simp add: fallback_hello)

section \<open>The parser always answers with a diagram\<close>

text \<open>The outer \<open>try\<close> of \<open>parseFlowchartInput\<close> never throws on a string, whatever the service
  answers: the diagram of its \<open>catch\<close> is never needed.\<close>

lemma parse_try_Inr: "\<exists>d. parse_try r text = Inr d"
  by (simp add: parse_try_def split: sum.splits)

lemma api_attempt_Inr:
  "api_attempt r = Inr d \<Longrightarrow>
     d \<noteq> [] \<and> (startsWith (trim d) (js ''flowchart'') \<or> startsWith (trim d) (js ''graph''))"
  by (auto simp: api_attempt_def split: sum.splits if_splits)

lemma parseFlowchartInput_header:
  "parseFlowchartInput r text \<noteq> [] \<and>
   (startsWith (trim (parseFlowchartInput r text)) (js ''flowchart'') \<or>
    startsWith (trim (parseFlowchartInput r text)) (js ''graph''))"
proof (cases "api_attempt r")
  case (Inl e)
  then have "parseFlowchartInput r text = generateFallbackFlowchart (extractPhrases text)"
    by (simp add: parseFlowchartInput_def parse_try_def)
  then show ?thesis
    using fallback_not_empty fallback_trim_startsWith_flowchart by simp
next
  case (Inr d)
  then have "parseFlowchartInput r text = d"
    by (simp add: parseFlowchartInput_def parse_try_def)
  then show ?thesis using api_attempt_Inr [OF Inr] by simp
qed

lemma parseFlowchartInput_fallback:
  "api_attempt r = Inl e \<Longrightarrow>
     parseFlowchartInput r text = generateFallbackFlowchart (extractPhrases text)"
  by (simp add: parseFlowchartInput_def parse_try_def)

section \<open>The phrases and the shape of the fallback document\<close>

lemma clauses_props:
  assumes "p \<in> set (clauses text)"
  shows "p \<noteq> []" and "trim p = p" and "\<forall>c\<in>set p. \<not> is_clause_sep c"
proof -
  from assms obtain piece where piece: "piece \<in> set (split_on is_clause_sep text)"
    and p: "p = trim piece" and ne: "p \<noteq> []"
    by (auto simp: clauses_def)
  show "p \<noteq> []" by (rule ne)
  show "trim p = p" using p by (simp add: trim_idem)
  show "\<forall>c\<in>set p. \<not> is_clause_sep c"
    using pieces_have_no_sep [OF piece] set_trim_subset [of piece] p by auto
qed

lemma extractPhrases_props:
  assumes "p \<in> set (extractPhrases text)"
  shows "p \<noteq> [] \<and> trim p = p \<and> (\<forall>c\<in>set p. \<not> is_clause_sep c)"
proof -
  have "p \<in> set (clauses text)"
    using assms unfolding extractPhrases_def by (rule in_set_takeD)
  then show ?thesis using clauses_props by blast
qed

lemma is_clause_sep_chars: "is_clause_sep c \<longleftrightarrow> c \<in> set (js '',.;:'')"
  by (auto simp: is_clause_sep_def js_def)

lemma sanitizeForMermaid_alt:
  "sanitizeForMermaid p = map (\<lambda>c. if c = DQUOTE then SQUOTE else c) (take 30 p)"
  by (simp add: sanitizeForMermaid_def take_map)

lemma nodeId_letter: "k < 26 \<Longrightarrow> nodeId k = of_char CHR ''A'' + k"
  by (simp add: nodeId_def)

section \<open>The lines of the fallback document\<close>

lemma includes_str_set: "includes_str s p \<Longrightarrow> set p \<subseteq> set s"
  by (auto simp: includes_str_iff)

lemma includes_str_Cons_other:
  "includes_str (c # s) p \<Longrightarrow> c \<notin> set p \<Longrightarrow> p \<noteq> [] \<Longrightarrow> includes_str s p"
  by (cases p) auto

lemma includes_str_prefix_other:
  "includes_str (a @ s) p \<Longrightarrow> set a \<inter> set p = {} \<Longrightarrow> p \<noteq> [] \<Longrightarrow> includes_str s p"
proof (induction a)
  case Nil
  then show ?case by simp
next
  case (Cons c a)
  have 1: "includes_str (c # (a @ s)) p" using Cons.prems(1) by simp
  have 2: "c \<notin> set p" using Cons.prems(2) by auto
  have 3: "includes_str (a @ s) p" using 1 2 Cons.prems(3) by (rule includes_str_Cons_other)
  have 4: "set a \<inter> set p = {}" using Cons.prems(2) by auto
  show ?case using 3 4 Cons.prems(3) by (rule Cons.IH)
qed

lemma includes_str_inside:
  assumes "includes_str (a @ l @ b) p" and "set a \<inter> set p = {}" and "set b \<inter> set p = {}"
    and "p \<noteq> []"
  shows "includes_str l p"
proof -
  have "includes_str (l @ b) p"
    using assms(1,2,4) by (rule includes_str_prefix_other)
  then have "includes_str (rev (l @ b)) (rev p)" by (simp only: includes_str_rev)
  then have 1: "includes_str (rev b @ rev l) (rev p)" by simp
  have 2: "set (rev b) \<inter> set (rev p) = {}" using assms(3) by simp
  have 3: "rev p \<noteq> []" using assms(4) by simp
  have "includes_str (rev l) (rev p)"
    using 1 2 3 by (rule includes_str_prefix_other)
  then show ?thesis by (simp only: includes_str_rev)
qed

lemma split_lines_terminated:
  "\<forall>l\<in>set ls. LF \<notin> set l \<Longrightarrow> split_lines (concat (map (\<lambda>l. l @ [LF]) ls)) = ls @ [[]]"
proof (induction ls)
  case Nil
  then show ?case by (simp add: split_lines_def)
next
  case (Cons l ls)
  have "split_on (\<lambda>c. c = LF) (l @ LF # concat (map (\<lambda>l. l @ [LF]) ls)) =
      l # split_on (\<lambda>c. c = LF) (concat (map (\<lambda>l. l @ [LF]) ls))"
    using Cons.prems by (intro split_on_append_sep) auto
  then show ?case using Cons by (simp add: split_lines_def)
qed

lemma fallback_as_lines:
  "generateFallbackFlowchart ps =
     concat (map (\<lambda>l. l @ [LF])
       (js ''flowchart TD'' # map (\<lambda>k. node_text k (ps ! k)) [0..<length ps] @
        map edge_text [0..<length ps - 1]))"
proof -
  have n: "concat (map (\<lambda>k. node_line k (ps ! k)) ks) =
      concat (map (\<lambda>l. l @ [LF]) (map (\<lambda>k. node_text k (ps ! k)) ks))" for ks
    by (induction ks) (simp_all add: node_line_def node_text_def)
  have e: "concat (map edge_line ks) = concat (map (\<lambda>l. l @ [LF]) (map edge_text ks))" for ks
    by (induction ks) (simp_all add: edge_line_def edge_text_def)
  show ?thesis
    unfolding generateFallbackFlowchart_closed n e by simp
qed

lemma nodeId_letter_range: "k < 26 \<Longrightarrow> 65 \<le> nodeId k \<and> nodeId k \<le> 90"
  by (simp add: nodeId_def)

lemma node_text_chars:
  assumes "k < 26"
  shows "set (node_text k p) \<subseteq> {32, 91, 93} \<union> {65..90} \<union> set (sanitizeForMermaid p)"
  using nodeId_letter_range [OF assms] by (auto simp: node_text_def js_def)

lemma edge_text_chars:
  assumes "k + 1 < 26"
  shows "set (edge_text k) \<subseteq> {32, 45, 62} \<union> {65..90}"
  using nodeId_letter_range [of k] nodeId_letter_range [of "k + 1"] assms
  by (auto simp: edge_text_def js_def)

lemma edge_text_arrow: "includes_str (edge_text k) (js ''-->'')"
proof -
  have "edge_text k = (js ''    '' @ [nodeId k, 32]) @ js ''-->'' @ [32, nodeId (k + 1)]"
    by (simp add: edge_text_def js_def)
  then show ?thesis unfolding includes_str_iff by (intro exI)
qed

lemma node_text_arrow:
  assumes "k < 26" and "includes_str (node_text k p) (js ''-->'')"
  shows "includes_str (sanitizeForMermaid p) (js ''-->'')"
proof -
  have inc: "includes_str ((js ''    '' @ [nodeId k] @ js ''['') @ sanitizeForMermaid p @ js '']'')
      (js ''-->'')"
    using assms(2) by (simp add: node_text_def)
  have a: "set (js ''    '' @ [nodeId k] @ js ''['') \<inter> set (js ''-->'') = {}"
    using nodeId_letter_range [OF assms(1)] by (auto simp: js_def)
  have b: "set (js '']'') \<inter> set (js ''-->'') = {}"
    by (simp add: js_def)
  have ne: "js ''-->'' \<noteq> []" by (simp add: js_def)
  show ?thesis by (rule includes_str_inside [OF inc a b ne])
qed

lemma terminated_chars:
  "c \<in> set (concat (map (\<lambda>l. l @ [LF]) ls)) \<Longrightarrow> c = LF \<or> (\<exists>l\<in>set ls. c \<in> set l)"
  by (induction ls) auto

lemma fallback_lines:
  assumes "length ps \<le> 26" and "\<forall>p\<in>set ps. LF \<notin> set (sanitizeForMermaid p)"
  shows "split_lines (generateFallbackFlowchart ps) =
     js ''flowchart TD'' # map (\<lambda>k. node_text k (ps ! k)) [0..<length ps] @
       map edge_text [0..<length ps - 1] @ [[]]"
proof -
  have "LF \<notin> set (node_text k (ps ! k))" if "k < length ps" for k
  proof -
    have "k < 26" and "LF \<notin> set (sanitizeForMermaid (ps ! k))"
      using that assms by auto
    then show ?thesis using node_text_chars [of k "ps ! k"] by auto
  qed
  moreover have "LF \<notin> set (edge_text k)" if "k < length ps - 1" for k
  proof -
    have "k + 1 < 26" using that assms(1) by simp
    then show ?thesis using edge_text_chars [of k] by auto
  qed
  moreover have "LF \<notin> set (js ''flowchart TD'')" by (simp add: js_def)
  ultimately have "\<forall>l\<in>set (js ''flowchart TD'' # map (\<lambda>k. node_text k (ps ! k)) [0..<length ps] @
        map edge_text [0..<length ps - 1]). LF \<notin> set l"
    by auto
  then have "split_lines (concat (map (\<lambda>l. l @ [LF])
      (js ''flowchart TD'' # map (\<lambda>k. node_text k (ps ! k)) [0..<length ps] @
        map edge_text [0..<length ps - 1]))) =
      (js ''flowchart TD'' # map (\<lambda>k. node_text k (ps ! k)) [0..<length ps] @
        map edge_text [0..<length ps - 1]) @ [[]]"
    by (rule split_lines_terminated)
  then show ?thesis
    unfolding fallback_as_lines by simp
qed

lemma fallback_no_brace:
  assumes "length ps \<le> 26" and "\<forall>p\<in>set ps. 123 \<notin> set (sanitizeForMermaid p)"
  shows "123 \<notin> set (generateFallbackFlowchart ps)"
proof
  assume "123 \<in> set (generateFallbackFlowchart ps)"
  then have "(123::nat) = LF \<or>
      (\<exists>l\<in>set (js ''flowchart TD'' # map (\<lambda>k. node_text k (ps ! k)) [0..<length ps] @
        map edge_text [0..<length ps - 1]). 123 \<in> set l)"
    unfolding fallback_as_lines by (rule terminated_chars)
  then have "\<exists>l\<in>set (js ''flowchart TD'' # map (\<lambda>k. node_text k (ps ! k)) [0..<length ps] @
        map edge_text [0..<length ps - 1]). 123 \<in> set l"
    by simp
  then consider "123 \<in> set (js ''flowchart TD'')"
    | k where "k < length ps" "123 \<in> set (node_text k (ps ! k))"
    | k where "k < length ps - 1" "123 \<in> set (edge_text k)"
    by auto
  then show False
  proof cases
    case 1
    then show ?thesis by (simp add: js_def)
  next
    case (2 k)
    then have "k < 26" and "123 \<notin> set (sanitizeForMermaid (ps ! k))"
      using assms by auto
    then show ?thesis using node_text_chars [of k "ps ! k"] 2(2) by auto
  next
    case (3 k)
    then have "k + 1 < 26" using assms(1) by simp
    then show ?thesis using edge_text_chars [of k] 3(2) by auto
  qed
qed

lemma fallback_arrow_lines:
  assumes "length ps \<le> 26" and "\<forall>p\<in>set ps. LF \<notin> set (sanitizeForMermaid p)"
    and "\<forall>p\<in>set ps. \<not> includes_str (sanitizeForMermaid p) (js ''-->'')"
    and "line \<in> set (split_lines (generateFallbackFlowchart ps))"
  shows "includes_str line (js ''-->'') \<longleftrightarrow> line \<in> set (map edge_text [0..<length ps - 1])"
proof
  assume "line \<in> set (map edge_text [0..<length ps - 1])"
  then show "includes_str line (js ''-->'')" using edge_text_arrow by auto
next
  assume inc: "includes_str line (js ''-->'')"
  have "line \<in> set (js ''flowchart TD'' # map (\<lambda>k. node_text k (ps ! k)) [0..<length ps] @
        map edge_text [0..<length ps - 1] @ [[]])"
    using assms(4) unfolding fallback_lines [OF assms(1,2)] .
  then consider "line = js ''flowchart TD''"
    | k where "k < length ps" "line = node_text k (ps ! k)"
    | "line \<in> set (map edge_text [0..<length ps - 1])"
    | "line = []"
    by auto
  then show "line \<in> set (map edge_text [0..<length ps - 1])"
  proof cases
    case 1
    then show ?thesis using inc by (simp add: js_def)
  next
    case (2 k)
    then have "k < 26" using assms(1) by simp
    then have "includes_str (sanitizeForMermaid (ps ! k)) (js ''-->'')"
      using inc unfolding 2(2) by (rule node_text_arrow)
    then show ?thesis using assms(3) 2(1) by auto
  next
    case 3
    then show ?thesis .
  next
    case 4
    then show ?thesis using inc by (simp add: js_def)
  qed
qed

text \<open>
  Claim C8, as the code has it. The phrases are the first five of the pieces of the input
  between the separators \<open>, . ; :\<close>, each trimmed, the empty ones dropped, in the order of the
  input (the pieces put together are the input without its separators). The label of a node
  is the phrase cut to its first 30 code units, with every double quote replaced by a single
  quote. The node of index \<open>k\<close> has the letter \<open>k\<close> places after \<open>A\<close> as its id. The
  generator writes the header, one line \<open>id[label]\<close> for each phrase in order and one line
  \<open>id --> next id\<close> from each node to the next, and nothing else; this is the document
  \<open>parseFlowchartInput\<close> returns when its API attempt fails. The label is copied as it is,
  so the document is a chain without decision nodes as far as the labels bring no diagram
  syntax of their own: when no label holds a line feed, a brace \<open>{\<close> or an arrow \<open>-->\<close>, the
  lines of the document are the header, the node lines and the connection lines, no brace
  occurs in it, and the lines with an arrow are the connection lines.
\<close>

theorem fallback_linear_chain:
  "(is_clause_sep c \<longleftrightarrow> c \<in> set (js '',.;:'')) \<and>
   extractPhrases text =
     take 5 (filter (\<lambda>p. p \<noteq> []) (map trim (split_on is_clause_sep text))) \<and>
   concat (split_on is_clause_sep text) = filter (\<lambda>c. \<not> is_clause_sep c) text \<and>
   length (extractPhrases text) \<le> 5 \<and>
   (\<forall>p\<in>set (extractPhrases text). p \<noteq> [] \<and> trim p = p \<and> (\<forall>c\<in>set p. \<not> is_clause_sep c)) \<and>
   sanitizeForMermaid phrase = map (\<lambda>c. if c = DQUOTE then SQUOTE else c) (take 30 phrase) \<and>
   (k < 26 \<longrightarrow> nodeId k = of_char CHR ''A'' + k) \<and>
   generateFallbackFlowchart ps =
     js ''flowchart TD'' @ [LF] @
     concat (map (\<lambda>k. js ''    '' @ [nodeId k] @ js ''['' @ sanitizeForMermaid (ps ! k) @
       js '']'' @ [LF]) [0..<length ps]) @
     concat (map (\<lambda>k. js ''    '' @ [nodeId k] @ js '' --> '' @ [nodeId (k + 1)] @ [LF])
       [0..<length ps - 1]) \<and>
   ((\<exists>e. api_attempt r = Inl e) \<longrightarrow>
      parseFlowchartInput r text = generateFallbackFlowchart (extractPhrases text)) \<and>
   (length ps \<le> 26 \<and>
    (\<forall>p\<in>set ps. LF \<notin> set (sanitizeForMermaid p) \<and> 123 \<notin> set (sanitizeForMermaid p) \<and>
       \<not> includes_str (sanitizeForMermaid p) (js ''-->'')) \<longrightarrow>
      split_lines (generateFallbackFlowchart ps) =
        js ''flowchart TD'' #
        map (\<lambda>k. js ''    '' @ [nodeId k] @ js ''['' @ sanitizeForMermaid (ps ! k) @ js '']'')
          [0..<length ps] @
        map (\<lambda>k. js ''    '' @ [nodeId k] @ js '' --> '' @ [nodeId (k + 1)]) [0..<length ps - 1] @
        [[]] \<and>
      123 \<notin> set (generateFallbackFlowchart ps) \<and>
      (\<forall>line\<in>set (split_lines (generateFallbackFlowchart ps)).
         includes_str line (js ''-->'') \<longleftrightarrow>
         line \<in> set (map (\<lambda>k. js ''    '' @ [nodeId k] @ js '' --> '' @ [nodeId (k + 1)])
           [0..<length ps - 1])))"
proof (intro conjI)
  show "is_clause_sep c \<longleftrightarrow> c \<in> set (js '',.;:'')"
    by (rule is_clause_sep_chars)
  show "extractPhrases text =
     take 5 (filter (\<lambda>p. p \<noteq> []) (map trim (split_on is_clause_sep text)))"
    by (simp add: extractPhrases_def clauses_def)
  show "concat (split_on is_clause_sep text) = filter (\<lambda>c. \<not> is_clause_sep c) text"
    by (rule concat_split_on)
  show "length (extractPhrases text) \<le> 5"
    by (simp add: extractPhrases_def)
  show "\<forall>p\<in>set (extractPhrases text). p \<noteq> [] \<and> trim p = p \<and> (\<forall>c\<in>set p. \<not> is_clause_sep c)"
    using extractPhrases_props by blast
  show "sanitizeForMermaid phrase = map (\<lambda>c. if c = DQUOTE then SQUOTE else c) (take 30 phrase)"
    by (rule sanitizeForMermaid_alt)
  show "k < 26 \<longrightarrow> nodeId k = of_char CHR ''A'' + k"
    using nodeId_letter by blast
  show "generateFallbackFlowchart ps =
     js ''flowchart TD'' @ [LF] @
     concat (map (\<lambda>k. js ''    '' @ [nodeId k] @ js ''['' @ sanitizeForMermaid (ps ! k) @
       js '']'' @ [LF]) [0..<length ps]) @
     concat (map (\<lambda>k. js ''    '' @ [nodeId k] @ js '' --> '' @ [nodeId (k + 1)] @ [LF])
       [0..<length ps - 1])"
    unfolding generateFallbackFlowchart_closed node_line_def [abs_def] edge_line_def [abs_def]
    by (rule refl)
  show "(\<exists>e. api_attempt r = Inl e) \<longrightarrow>
      parseFlowchartInput r text = generateFallbackFlowchart (extractPhrases text)"
    using parseFlowchartInput_fallback by blast
  show "length ps \<le> 26 \<and>
    (\<forall>p\<in>set ps. LF \<notin> set (sanitizeForMermaid p) \<and> 123 \<notin> set (sanitizeForMermaid p) \<and>
       \<not> includes_str (sanitizeForMermaid p) (js ''-->'')) \<longrightarrow>
      split_lines (generateFallbackFlowchart ps) =
        js ''flowchart TD'' #
        map (\<lambda>k. js ''    '' @ [nodeId k] @ js ''['' @ sanitizeForMermaid (ps ! k) @ js '']'')
          [0..<length ps] @
        map (\<lambda>k. js ''    '' @ [nodeId k] @ js '' --> '' @ [nodeId (k + 1)]) [0..<length ps - 1] @
        [[]] \<and>
      123 \<notin> set (generateFallbackFlowchart ps) \<and>
      (\<forall>line\<in>set (split_lines (generateFallbackFlowchart ps)).
         includes_str line (js ''-->'') \<longleftrightarrow>
         line \<in> set (map (\<lambda>k. js ''    '' @ [nodeId k] @ js '' --> '' @ [nodeId (k + 1)])
           [0..<length ps - 1]))"
  proof (intro impI, elim conjE)
    assume len: "length ps \<le> 26"
      and free: "\<forall>p\<in>set ps. LF \<notin> set (sanitizeForMermaid p) \<and> 123 \<notin> set (sanitizeForMermaid p) \<and>
       \<not> includes_str (sanitizeForMermaid p) (js ''-->'')"
    have 1: "\<forall>p\<in>set ps. LF \<notin> set (sanitizeForMermaid p)"
      and 2: "\<forall>p\<in>set ps. 123 \<notin> set (sanitizeForMermaid p)"
      and 3: "\<forall>p\<in>set ps. \<not> includes_str (sanitizeForMermaid p) (js ''-->'')"
      using free by blast+
    show "split_lines (generateFallbackFlowchart ps) =
        js ''flowchart TD'' #
        map (\<lambda>k. js ''    '' @ [nodeId k] @ js ''['' @ sanitizeForMermaid (ps ! k) @ js '']'')
          [0..<length ps] @
        map (\<lambda>k. js ''    '' @ [nodeId k] @ js '' --> '' @ [nodeId (k + 1)]) [0..<length ps - 1] @
        [[]] \<and>
      123 \<notin> set (generateFallbackFlowchart ps) \<and>
      (\<forall>line\<in>set (split_lines (generateFallbackFlowchart ps)).
         includes_str line (js ''-->'') \<longleftrightarrow>
         line \<in> set (map (\<lambda>k. js ''    '' @ [nodeId k] @ js '' --> '' @ [nodeId (k + 1)])
           [0..<length ps - 1]))"
      using fallback_lines [OF len 1] fallback_no_brace [OF len 2]
        fallback_arrow_lines [OF len 1 3]
      unfolding node_text_def [abs_def] edge_text_def [abs_def] by blast
  qed
qed

lemma extractPhrases_example:
  "extractPhrases (js '' a, b.. c ;d:e,f,g'') = [js ''a'', js ''b'', js ''c'', js ''d'', js ''e'']"
  by (simp add: extractPhrases_def clauses_def is_clause_sep_def trim_def is_ws_def js_def)

lemma fallback_example:
  "generateFallbackFlowchart [js ''a'', [DQUOTE, 98]] =
     js ''flowchart TD'' @ LF # js ''    A[a]'' @ LF # js ''    B['' @ SQUOTE # js ''b]'' @ LF #
     js ''    A --> B'' @ [LF]"
  by (simp add: generateFallbackFlowchart_closed node_line_def edge_line_def nodeId_def
      sanitizeForMermaid_def js_def upt_conv_Cons del: upt_Suc)

lemma fallback_example_labels:
  "\<forall>p\<in>set [js ''a'', [DQUOTE, 98]]. LF \<notin> set (sanitizeForMermaid p) \<and>
     123 \<notin> set (sanitizeForMermaid p) \<and> \<not> includes_str (sanitizeForMermaid p) (js ''-->'')"
  by (simp add: sanitizeForMermaid_def js_def)

theorem fallback_linear_chain_witness:
  "extractPhrases (js '' a, b.. c ;d:e,f,g'') = [js ''a'', js ''b'', js ''c'', js ''d'', js ''e''] \<and>
   nodeId 4 = of_char CHR ''E'' \<and>
   generateFallbackFlowchart [js ''a'', [DQUOTE, 98]] =
     js ''flowchart TD'' @ LF # js ''    A[a]'' @ LF # js ''    B['' @ SQUOTE # js ''b]'' @ LF #
     js ''    A --> B'' @ [LF] \<and>
   parseFlowchartInput NoResponse (js ''hello'') = generateFallbackFlowchart [js ''hello''] \<and>
   split_lines (generateFallbackFlowchart [js ''a'', [DQUOTE, 98]]) =
     [js ''flowchart TD'', js ''    A[a]'', js ''    B['' @ SQUOTE # js ''b]'', js ''    A --> B'', []] \<and>
   123 \<notin> set (generateFallbackFlowchart [js ''a'', [DQUOTE, 98]])"
proof -
  have api: "\<exists>e. api_attempt NoResponse = Inl e"
    by (simp add: api_attempt_def generateFlowchartFromAPI_def)
  note t1 = fallback_linear_chain [of 44 "js '' a, b.. c ;d:e,f,g''" "[]" 4 "[js ''a'', [DQUOTE, 98]]"
      NoResponse]
  note t2 = fallback_linear_chain [of 44 "js ''hello''" "[]" 4 "[]" NoResponse]
  have a: "nodeId 4 = of_char CHR ''E''" using t1 by simp
  have b: "parseFlowchartInput NoResponse (js ''hello'') = generateFallbackFlowchart [js ''hello'']"
    using t2 api by (simp add: extractPhrases_hello)
  have "length [js ''a'', [DQUOTE, 98]] \<le> 26" by simp
  then have c: "split_lines (generateFallbackFlowchart [js ''a'', [DQUOTE, 98]]) =
        js ''flowchart TD'' #
        map (\<lambda>k. js ''    '' @ [nodeId k] @ js ''['' @
            sanitizeForMermaid ([js ''a'', [DQUOTE, 98]] ! k) @ js '']'')
          [0..<length [js ''a'', [DQUOTE, 98]]] @
        map (\<lambda>k. js ''    '' @ [nodeId k] @ js '' --> '' @ [nodeId (k + 1)])
          [0..<length [js ''a'', [DQUOTE, 98]] - 1] @ [[]]"
    and d: "123 \<notin> set (generateFallbackFlowchart [js ''a'', [DQUOTE, 98]])"
    using t1 fallback_example_labels by blast+
  have c': "split_lines (generateFallbackFlowchart [js ''a'', [DQUOTE, 98]]) =
     [js ''flowchart TD'', js ''    A[a]'', js ''    B['' @ SQUOTE # js ''b]'', js ''    A --> B'', []]"
    unfolding c
    by (simp add: nodeId_def sanitizeForMermaid_def js_def upt_conv_Cons del: upt_Suc)
  show ?thesis
    using a b c' d by (simp add: extractPhrases_example fallback_example)
qed

text \<open>
  The claim as stated fails for an input that is one clause with diagram syntax in it, here
  \<open>a]\<close>, \<open>A-->Z{d}\<close>, \<open>Q[b\<close> on three lines: the generator writes one node and no connection,
  and the document holds a line with an arrow to a node in braces.
\<close>

theorem fallback_not_a_chain:
  "extractPhrases (js ''a]'' @ LF # js ''A-->Z{d}'' @ LF # js ''Q[b'') =
     [js ''a]'' @ LF # js ''A-->Z{d}'' @ LF # js ''Q[b''] \<and>
   split_lines (generateFallbackFlowchart
       (extractPhrases (js ''a]'' @ LF # js ''A-->Z{d}'' @ LF # js ''Q[b''))) =
     [js ''flowchart TD'', js ''    A[a]'', js ''A-->Z{d}'', js ''Q[b]'', []] \<and>
   includes_str (js ''A-->Z{d}'') (js ''-->'') \<and>
   includes_str (js ''A-->Z{d}'') (js ''{'')"
proof -
  have 1: "extractPhrases (js ''a]'' @ LF # js ''A-->Z{d}'' @ LF # js ''Q[b'') =
     [js ''a]'' @ LF # js ''A-->Z{d}'' @ LF # js ''Q[b'']"
    by (simp add: extractPhrases_def clauses_def is_clause_sep_def trim_def is_ws_def js_def)
  have 2: "generateFallbackFlowchart [js ''a]'' @ LF # js ''A-->Z{d}'' @ LF # js ''Q[b''] =
      js ''flowchart TD'' @ LF # js ''    A[a]'' @ LF # js ''A-->Z{d}'' @ LF # js ''Q[b]'' @ [LF]"
    by (simp add: generateFallbackFlowchart_closed node_line_def nodeId_def
        sanitizeForMermaid_def js_def)
  have 3: "split_lines (js ''flowchart TD'' @ LF # js ''    A[a]'' @ LF # js ''A-->Z{d}'' @ LF #
      js ''Q[b]'' @ [LF]) =
     [js ''flowchart TD'', js ''    A[a]'', js ''A-->Z{d}'', js ''Q[b]'', []]"
    by (simp add: split_lines_def js_def)
  have 4: "includes_str (js ''A-->Z{d}'') (js ''-->'') \<and> includes_str (js ''A-->Z{d}'') (js ''{'')"
    by (simp add: js_def)
  show ?thesis using 4 by (simp only: 1 2 3 simp_thms)
qed

section \<open>The page\<close>

text \<open>The \<open>try\<close> of \<open>handleSubmit\<close> never throws either.\<close>

lemma submit_try_Inr: "\<exists>st'. submit_try sv st = Inr st'"
  by (simp add: submit_try_def split: prod.splits)

lemma createFlowchartFromBackend_truthy:
  "createFlowchartFromBackend r = Inr m \<Longrightarrow> truthy m"
  by (auto simp: createFlowchartFromBackend_def split: reply.splits if_splits)

lemma handleSubmit_blank:
  "trim (input st) = [] \<Longrightarrow>
     handleSubmit sv st = st\<lparr>error := Some (js ''Please enter a description'')\<rparr>"
  by (simp add: handleSubmit_def)

lemma handleSubmit_from_backend:
  assumes "trim (input st) \<noteq> []" and "selected st = Some (js ''Flowchart'')"
    and "createFlowchartFromBackend (backend sv (input st)) = Inr m"
  shows "handleSubmit sv st = st\<lparr>loading := False, error := None, mermaidCode := m\<rparr>"
  using assms createFlowchartFromBackend_truthy [OF assms(3)]
  by (simp add: handleSubmit_def submit_try_def)

lemma handleSubmit_from_parser:
  assumes "trim (input st) \<noteq> []" and "from_parser sv st"
  shows "handleSubmit sv st =
      st\<lparr>loading := False, error := None,
         mermaidCode := JString (parseFlowchartInput (api sv (input st)) (input st)),
         toasts := (if selected st = Some (js ''Flowchart'')
                    then toasts st @ [js ''Used fallback processing''] else toasts st)\<rparr>"
proof (cases "selected st = Some (js ''Flowchart'')")
  case True
  then obtain e where "createFlowchartFromBackend (backend sv (input st)) = Inl e"
    using assms(2) by (auto simp: from_parser_def)
  then show ?thesis
    using assms(1) True parseFlowchartInput_header [of "api sv (input st)" "input st"]
    by (simp add: handleSubmit_def submit_try_def)
next
  case False
  then show ?thesis
    using assms(1) parseFlowchartInput_header [of "api sv (input st)" "input st"]
    by (simp add: handleSubmit_def submit_try_def)
qed

lemma handleSubmit_document:
  assumes "trim (input st) \<noteq> []"
  shows "loading (handleSubmit sv st) = False \<and> error (handleSubmit sv st) = None \<and>
         truthy (mermaidCode (handleSubmit sv st))"
proof (cases "from_parser sv st")
  case True
  show ?thesis
    using parseFlowchartInput_header [of "api sv (input st)" "input st"]
    by (simp add: handleSubmit_from_parser [OF assms True])
next
  case False
  then obtain m where sel: "selected st = Some (js ''Flowchart'')"
    and m: "createFlowchartFromBackend (backend sv (input st)) = Inr m"
    by (cases "createFlowchartFromBackend (backend sv (input st))") (auto simp: from_parser_def)
  show ?thesis
    using createFlowchartFromBackend_truthy [OF m]
    by (simp add: handleSubmit_from_backend [OF assms sel m])
qed

lemma handleSubmit_inputWarning:
  "handleSubmit sv (st\<lparr>inputWarning := w\<rparr>) = (handleSubmit sv st)\<lparr>inputWarning := w\<rparr>"
proof (cases "trim (input st) = []")
  case True
  then show ?thesis by (simp add: handleSubmit_blank)
next
  case nonblank: False
  show ?thesis
  proof (cases "from_parser sv st")
    case True
    then have "from_parser sv (st\<lparr>inputWarning := w\<rparr>)"
      by (simp add: from_parser_def)
    then show ?thesis
      using nonblank True by (simp add: handleSubmit_from_parser)
  next
    case False
    then obtain m where sel: "selected st = Some (js ''Flowchart'')"
      and m: "createFlowchartFromBackend (backend sv (input st)) = Inr m"
      by (cases "createFlowchartFromBackend (backend sv (input st))") (auto simp: from_parser_def)
    then show ?thesis
      using nonblank by (simp add: handleSubmit_from_backend)
  qed
qed

section \<open>The page: warning, blank input, document\<close>

lemma analyzeInput_level:
  "map_option level (analyzeInput text) =
     (if 3000 < length text then Some Severe
      else if 2000 < length text then Some Warning
      else if 1000 < length text then Some Info
      else None)"
  by (simp add: analyzeInput_def Let_def)

lemma handleInputChange_frame:
  "(handleInputChange text st)\<lparr>inputWarning := inputWarning st\<rparr> = st\<lparr>input := text\<rparr>"
  by (simp add: handleInputChange_def Let_def)

text \<open>
  Claim C7. \<open>analyzeInput\<close> passes \<open>setInputWarning\<close> a warning of level \<open>severe\<close> for more than
  3000 code units, \<open>warning\<close> for more than 2000, \<open>info\<close> for more than 1000, and \<open>null\<close>
  otherwise; 3500 code units give \<open>severe\<close>. The warning is advisory: \<open>handleInputChange\<close>,
  the only caller, changes nothing of the page but the input and the warning, and
  \<open>handleSubmit\<close> neither reads nor writes the warning.
\<close>

theorem analyzeInput_severity:
  "map_option level (analyzeInput text) =
     (if 3000 < length text then Some Severe
      else if 2000 < length text then Some Warning
      else if 1000 < length text then Some Info
      else None) \<and>
   (length text = 3500 \<longrightarrow> map_option level (analyzeInput text) = Some Severe) \<and>
   (handleInputChange text st)\<lparr>inputWarning := inputWarning st\<rparr> = st\<lparr>input := text\<rparr> \<and>
   handleSubmit sv (st\<lparr>inputWarning := w\<rparr>) = (handleSubmit sv st)\<lparr>inputWarning := w\<rparr>"
  by (simp add: analyzeInput_level handleInputChange_frame handleSubmit_inputWarning)

theorem analyzeInput_severity_witness:
  "map_option level (analyzeInput (replicate 3500 97)) = Some Severe \<and>
   map_option level (analyzeInput (replicate 3000 97)) = Some Warning \<and>
   map_option level (analyzeInput (replicate 2000 97)) = Some Info \<and>
   map_option level (analyzeInput (replicate 1000 97)) = None"
  using analyzeInput_severity [of "replicate 3500 97" initialPage unreachable None]
    analyzeInput_severity [of "replicate 3000 97" initialPage unreachable None]
    analyzeInput_severity [of "replicate 2000 97" initialPage unreachable None]
    analyzeInput_severity [of "replicate 1000 97" initialPage unreachable None]
  by simp

text \<open>
  Claim C9. When the input is empty or holds white space only, \<open>handleSubmit\<close> sets the error
  \<open>Please enter a description\<close> and returns: nothing else of the page changes (no document is
  set, no service is asked, no toast is shown). For every other input it ends with a
  document and no error, so the blank input is the only one that leaves an error and
  no document.
\<close>

theorem handleSubmit_rejects_blank:
  "((\<forall>c\<in>set (input st). is_ws c) \<longrightarrow>
      handleSubmit sv st = st\<lparr>error := Some (js ''Please enter a description'')\<rparr>) \<and>
   (\<not> (\<forall>c\<in>set (input st). is_ws c) \<longrightarrow>
      error (handleSubmit sv st) = None \<and> truthy (mermaidCode (handleSubmit sv st)))"
  using handleSubmit_blank [of st sv] handleSubmit_document [of st sv]
  by (simp add: trim_empty_iff)

theorem handleSubmit_rejects_blank_witness:
  "handleSubmit unreachable (initialPage\<lparr>input := [32, 9, LF]\<rparr>) =
     initialPage\<lparr>input := [32, 9, LF], error := Some (js ''Please enter a description'')\<rparr> \<and>
   handleSubmit unreachable initialPage =
     initialPage\<lparr>error := Some (js ''Please enter a description'')\<rparr> \<and>
   error (handleSubmit unreachable (initialPage\<lparr>input := js ''hello''\<rparr>)) = None \<and>
   truthy (mermaidCode (handleSubmit unreachable (initialPage\<lparr>input := js ''hello''\<rparr>)))"
  using handleSubmit_rejects_blank [of "initialPage\<lparr>input := [32, 9, LF]\<rparr>" unreachable]
    handleSubmit_rejects_blank [of initialPage unreachable]
    handleSubmit_rejects_blank [of "initialPage\<lparr>input := js ''hello''\<rparr>" unreachable]
  by (simp add: initialPage_def is_ws_def js_def)

text \<open>
  Claim C1, as the code has it. For every input that is not blank, \<open>handleSubmit\<close> ends with
  \<open>loading\<close> off, no error and a truthy document: no failure is left unhandled. No stage of
  the pipeline calls \<open>validateMermaidSyntax\<close>. A document that comes from
  \<open>parseFlowchartInput\<close> (another diagram type is selected, or the backend failed) is a
  non-empty string whose trimmed text starts with \<open>flowchart\<close> or \<open>graph\<close>, the check of
  \<open>parseFlowchartInput\<close> itself; when the API attempt fails too, it is the fallback
  generator's document for the phrases of the input.
\<close>

theorem handleSubmit_always_document:
  assumes "trim (input st) \<noteq> []"
  shows "loading (handleSubmit sv st) = False \<and> error (handleSubmit sv st) = None \<and>
     truthy (mermaidCode (handleSubmit sv st)) \<and>
     (from_parser sv st \<longrightarrow>
        (\<exists>d. mermaidCode (handleSubmit sv st) = JString d \<and> d \<noteq> [] \<and>
           (startsWith (trim d) (js ''flowchart'') \<or> startsWith (trim d) (js ''graph'')) \<and>
           ((\<exists>e. api_attempt (api sv (input st)) = Inl e) \<longrightarrow>
              d = generateFallbackFlowchart (extractPhrases (input st)))))"
proof (intro conjI impI)
  show "loading (handleSubmit sv st) = False" "error (handleSubmit sv st) = None"
    "truthy (mermaidCode (handleSubmit sv st))"
    using handleSubmit_document [OF assms, of sv] by simp_all
next
  assume fp: "from_parser sv st"
  let ?d = "parseFlowchartInput (api sv (input st)) (input st)"
  have "mermaidCode (handleSubmit sv st) = JString ?d"
    by (simp add: handleSubmit_from_parser [OF assms fp])
  moreover have "?d \<noteq> []"
    "startsWith (trim ?d) (js ''flowchart'') \<or> startsWith (trim ?d) (js ''graph'')"
    using parseFlowchartInput_header [of "api sv (input st)" "input st"] by simp_all
  moreover have "(\<exists>e. api_attempt (api sv (input st)) = Inl e) \<longrightarrow>
      ?d = generateFallbackFlowchart (extractPhrases (input st))"
    using parseFlowchartInput_fallback by blast
  ultimately show "\<exists>d. mermaidCode (handleSubmit sv st) = JString d \<and> d \<noteq> [] \<and>
           (startsWith (trim d) (js ''flowchart'') \<or> startsWith (trim d) (js ''graph'')) \<and>
           ((\<exists>e. api_attempt (api sv (input st)) = Inl e) \<longrightarrow>
              d = generateFallbackFlowchart (extractPhrases (input st)))"
    by blast
qed

lemma hello_page:
  "handleSubmit unreachable (initialPage\<lparr>selected := Some (js ''Flowchart''), input := js ''hello''\<rparr>) =
     initialPage\<lparr>selected := Some (js ''Flowchart''), input := js ''hello'',
       mermaidCode := JString (js ''flowchart TD'' @ LF # js ''    A[hello]'' @ [LF]),
       toasts := [js ''Used fallback processing'']\<rparr>"
proof -
  let ?st = "initialPage\<lparr>selected := Some (js ''Flowchart''), input := js ''hello''\<rparr>"
  have nonblank: "trim (input ?st) \<noteq> []"
    by (simp add: trim_hello) (simp add: js_def)
  have fp: "from_parser unreachable ?st"
    by (simp add: from_parser_def unreachable_def createFlowchartFromBackend_def)
  have api: "api_attempt (api unreachable (input ?st)) = Inl (Error (js ''Failed to fetch''))"
    by (simp add: unreachable_def api_attempt_def generateFlowchartFromAPI_def)
  show ?thesis
    using handleSubmit_from_parser [OF nonblank fp] parseFlowchartInput_fallback [OF api, of "js ''hello''"]
    by (simp add: extractPhrases_hello fallback_hello initialPage_def)
qed

theorem handleSubmit_always_document_witness:
  "mermaidCode (handleSubmit unreachable
       (initialPage\<lparr>selected := Some (js ''Flowchart''), input := js ''hello''\<rparr>)) =
     JString (generateFallbackFlowchart [js ''hello'']) \<and>
   error (handleSubmit unreachable
       (initialPage\<lparr>selected := Some (js ''Flowchart''), input := js ''hello''\<rparr>)) = None"
proof -
  let ?st = "initialPage\<lparr>selected := Some (js ''Flowchart''), input := js ''hello''\<rparr>"
  have nonblank: "trim (input ?st) \<noteq> []"
    by (simp add: trim_hello) (simp add: js_def)
  have fp: "from_parser unreachable ?st"
    by (simp add: from_parser_def unreachable_def createFlowchartFromBackend_def)
  have api: "\<exists>e. api_attempt (api unreachable (input ?st)) = Inl e"
    by (simp add: unreachable_def api_attempt_def generateFlowchartFromAPI_def)
  show ?thesis
    using handleSubmit_always_document [OF nonblank, of unreachable] fp api
    by (auto simp: extractPhrases_hello)
qed

text \<open>
  The claim as stated fails when neither service answers: the input \<open>hello\<close> is answered
  with the fallback generator's document, which starts with \<open>flowchart TD\<close> and holds
  neither \<open>graph TD\<close> nor \<open>graph LR\<close>, so \<open>validateMermaidSyntax\<close> rejects it.
\<close>

theorem handleSubmit_document_rejected:
  "trim (js ''hello'') \<noteq> [] \<and>
   mermaidCode (handleSubmit unreachable
       (initialPage\<lparr>selected := Some (js ''Flowchart''), input := js ''hello''\<rparr>)) =
     JString (js ''flowchart TD'' @ LF # js ''    A[hello]'' @ [LF]) \<and>
   \<not> validateMermaidSyntax (mermaidCode (handleSubmit unreachable
       (initialPage\<lparr>selected := Some (js ''Flowchart''), input := js ''hello''\<rparr>)))"
  using hello_rejected by (simp add: hello_page trim_hello) (simp add: js_def)

end
